theory Spec2Isabelle
  imports
    Complex_Main
    "HOL-Library.Option_ord"
    "HOL-Library.Product_Lexorder"
    "HOL-Library.Multiset"
begin

section \<open>The backlog database (data/backlog/schema.sql)\<close>

text \<open>
  The tables of the schema are lists of rows, in insertion order. A \<open>TEXT\<close> column is a
  \<open>string\<close>, a nullable column an \<open>option\<close> (\<open>None\<close> is SQL's \<open>NULL\<close>), an
  \<open>INTEGER PRIMARY KEY\<close> an \<open>int\<close>, and a \<open>DATETIME\<close> a number of seconds, so that
  the order of the stored text \<open>YYYY-MM-DD HH:MM:SS\<close> is the order of the numbers.
  \<open>CURRENT_TIMESTAMP\<close> is the argument \<open>now\<close> of every statement. A column declared
  \<open>NOT NULL\<close> has a type without \<open>None\<close>. The column \<open>id\<close> of each table carries a
  suffix, since \<open>id\<close> is the identity function of HOL.
\<close>

type_synonym datetime = nat

record backlog_items_row =
  id_bi :: int
  external_id :: string
  title :: string
  description :: "string option"
  category :: string
  secondary_tags :: "string option"
  priority :: string
  item_type :: string
  status :: string
  next_action :: "string option"
  estimated_effort :: "string option"
  dependencies :: "string option"
  source_channel :: "string option"
  source_message_ts :: "string option"
  source_user :: "string option"
  created_at :: "datetime option"
  updated_at :: "datetime option"
  completed_at :: "datetime option"
  llm_confidence :: "real option"
  raw_input :: "string option"

text \<open>
  \<open>event_data\<close> holds the text of a JSON object; \<open>json_object('k1', v1, 'k2', v2)\<close> is
  kept as its list of members \<open>[(k1, v1), (k2, v2)]\<close>.
\<close>

record backlog_events_row =
  id_ev :: int
  item_id_ev :: int
  external_id_ev :: string
  event_type :: string
  event_data :: "(string \<times> string) list option"
  actor_type :: string
  actor_id :: "string option"
  created_at_ev :: "datetime option"

record clarifications_row =
  id_cl :: int
  item_id_cl :: int
  question :: string
  answer :: "string option"
  asked_at :: "datetime option"
  answered_at :: "datetime option"
  thread_ts :: "string option"

text \<open>
  The database: the three tables and, for each \<open>AUTOINCREMENT\<close> key, the largest key
  ever handed out (SQLite's \<open>sqlite_sequence\<close>).
\<close>

record db =
  backlog_items :: "backlog_items_row list"
  backlog_events :: "backlog_events_row list"
  clarifications :: "clarifications_row list"
  seq_backlog_items :: int
  seq_backlog_events :: int
  seq_clarifications :: int

definition empty_db :: db where
  "empty_db = \<lparr>backlog_items = [], backlog_events = [], clarifications = [],
     seq_backlog_items = 0, seq_backlog_events = 0, seq_clarifications = 0\<rparr>"

datatype sql_error = Check_failed string | Unique_failed string

subsection \<open>Constraints\<close>

definition priority_check :: "string \<Rightarrow> bool" where
  "priority_check p = (p \<in> set [''P0'', ''P1'', ''P2'', ''P3''])"

definition item_type_check :: "string \<Rightarrow> bool" where
  "item_type_check t = (t \<in> set [''personal'', ''work'', ''mixed''])"

definition status_check :: "string \<Rightarrow> bool" where
  "status_check s =
     (s \<in> set [''open'', ''needs_clarification'', ''in_progress'', ''blocked'', ''done'',
        ''cancelled''])"

text \<open>
  \<open>x IN (v1, ..., vn)\<close> in SQL's three-valued logic: \<open>NULL\<close> when \<open>x\<close> is \<open>NULL\<close>, true
  when some \<open>vi\<close> equals \<open>x\<close>, \<open>NULL\<close> when none does and some \<open>vi\<close> is \<open>NULL\<close>, false
  otherwise. A \<open>CHECK\<close> rejects a row only when its expression is false.
\<close>

definition sql_in :: "string option \<Rightarrow> string option list \<Rightarrow> bool option" where
  "sql_in x vs =
     (case x of
        None \<Rightarrow> None
      | Some v \<Rightarrow>
          if Some v \<in> set vs then Some True
          else if None \<in> set vs then None
          else Some False)"

definition check_passes :: "bool option \<Rightarrow> bool" where
  "check_passes v = (v \<noteq> Some False)"

definition estimated_effort_check :: "string option \<Rightarrow> bool" where
  "estimated_effort_check e =
     check_passes (sql_in e [Some ''S'', Some ''M'', Some ''L'', None])"

text \<open>
  The constraints of \<open>backlog_items\<close> on a row \<open>r\<close> that is to be stored beside the rows
  \<open>others\<close>: the four \<open>CHECK\<close>s, the primary key and \<open>UNIQUE\<close> on \<open>external_id\<close>.
\<close>

definition constraint_error ::
  "backlog_items_row list \<Rightarrow> backlog_items_row \<Rightarrow> sql_error option" where
  "constraint_error others r =
     (if \<not> priority_check (priority r) then Some (Check_failed ''priority'')
      else if \<not> item_type_check (item_type r) then Some (Check_failed ''item_type'')
      else if \<not> status_check (status r) then Some (Check_failed ''status'')
      else if \<not> estimated_effort_check (estimated_effort r)
        then Some (Check_failed ''estimated_effort'')
      else if id_bi r \<in> set (map id_bi others) then Some (Unique_failed ''id'')
      else if external_id r \<in> set (map external_id others)
        then Some (Unique_failed ''external_id'')
      else None)"

subsection \<open>INSERT\<close>

text \<open>
  An \<open>AUTOINCREMENT\<close> key is one more than the largest key of the table and of
  \<open>sqlite_sequence\<close>.
\<close>

definition next_rowid :: "int \<Rightarrow> int list \<Rightarrow> int" where
  "next_rowid seq ids = fold max ids seq + 1"

text \<open>The row that \<open>INSERT INTO backlog_items (external_id, title)\<close> stores: the defaults.\<close>

definition default_row :: "datetime \<Rightarrow> string \<Rightarrow> string \<Rightarrow> backlog_items_row" where
  "default_row now ext t =
     \<lparr>id_bi = 0, external_id = ext, title = t, description = None, category = ''Personal'',
      secondary_tags = None, priority = ''P2'', item_type = ''personal'', status = ''open'',
      next_action = None, estimated_effort = None, dependencies = None,
      source_channel = None, source_message_ts = None, source_user = None,
      created_at = Some now, updated_at = Some now, completed_at = None,
      llm_confidence = None, raw_input = None\<rparr>"

text \<open>
  \<open>INSERT INTO backlog_items\<close> of the row \<open>r\<close>, with the key given (\<open>Some k\<close>) or left to
  \<open>AUTOINCREMENT\<close> (\<open>None\<close>). The schema has no trigger on \<open>INSERT\<close> into this table.
\<close>

definition insert_backlog_item :: "int option \<Rightarrow> backlog_items_row \<Rightarrow> db \<Rightarrow> sql_error + db" where
  "insert_backlog_item key r d =
     (let k = (case key of
                 Some i \<Rightarrow> i
               | None \<Rightarrow> next_rowid (seq_backlog_items d) (map id_bi (backlog_items d)));
          new = r\<lparr>id_bi := k\<rparr>
      in case constraint_error (backlog_items d) new of
           Some e \<Rightarrow> Inl e
         | None \<Rightarrow>
             Inr (d\<lparr>backlog_items := backlog_items d @ [new],
                    seq_backlog_items := max (seq_backlog_items d) k\<rparr>))"

text \<open>
  The \<open>INSERT INTO backlog_events (item_id, external_id, event_type, event_data,
  actor_type)\<close> of the two logging triggers: the key is generated, \<open>actor_id\<close> is \<open>NULL\<close>
  and \<open>created_at\<close> the current time.
\<close>

definition insert_backlog_event ::
  "datetime \<Rightarrow> int \<Rightarrow> string \<Rightarrow> string \<Rightarrow> (string \<times> string) list \<Rightarrow> string \<Rightarrow> db \<Rightarrow> db" where
  "insert_backlog_event now iid ext ty data actor d =
     (let k = next_rowid (seq_backlog_events d) (map id_ev (backlog_events d))
      in d\<lparr>backlog_events := backlog_events d @
               [\<lparr>id_ev = k, item_id_ev = iid, external_id_ev = ext, event_type = ty,
                 event_data = Some data, actor_type = actor, actor_id = None,
                 created_at_ev = Some now\<rparr>],
            seq_backlog_events := k\<rparr>)"

subsection \<open>SET clauses\<close>

text \<open>One assignment of a \<open>SET\<close> clause, with the value it stores.\<close>

datatype set_clause =
    Set_id int
  | Set_external_id string
  | Set_title string
  | Set_description "string option"
  | Set_category string
  | Set_secondary_tags "string option"
  | Set_priority string
  | Set_item_type string
  | Set_status string
  | Set_next_action "string option"
  | Set_estimated_effort "string option"
  | Set_dependencies "string option"
  | Set_source_channel "string option"
  | Set_source_message_ts "string option"
  | Set_source_user "string option"
  | Set_created_at "datetime option"
  | Set_updated_at "datetime option"
  | Set_completed_at "datetime option"
  | Set_llm_confidence "real option"
  | Set_raw_input "string option"

primrec assign :: "set_clause \<Rightarrow> backlog_items_row \<Rightarrow> backlog_items_row" where
  "assign (Set_id v) r = r\<lparr>id_bi := v\<rparr>"
| "assign (Set_external_id v) r = r\<lparr>external_id := v\<rparr>"
| "assign (Set_title v) r = r\<lparr>title := v\<rparr>"
| "assign (Set_description v) r = r\<lparr>description := v\<rparr>"
| "assign (Set_category v) r = r\<lparr>category := v\<rparr>"
| "assign (Set_secondary_tags v) r = r\<lparr>secondary_tags := v\<rparr>"
| "assign (Set_priority v) r = r\<lparr>priority := v\<rparr>"
| "assign (Set_item_type v) r = r\<lparr>item_type := v\<rparr>"
| "assign (Set_status v) r = r\<lparr>status := v\<rparr>"
| "assign (Set_next_action v) r = r\<lparr>next_action := v\<rparr>"
| "assign (Set_estimated_effort v) r = r\<lparr>estimated_effort := v\<rparr>"
| "assign (Set_dependencies v) r = r\<lparr>dependencies := v\<rparr>"
| "assign (Set_source_channel v) r = r\<lparr>source_channel := v\<rparr>"
| "assign (Set_source_message_ts v) r = r\<lparr>source_message_ts := v\<rparr>"
| "assign (Set_source_user v) r = r\<lparr>source_user := v\<rparr>"
| "assign (Set_created_at v) r = r\<lparr>created_at := v\<rparr>"
| "assign (Set_updated_at v) r = r\<lparr>updated_at := v\<rparr>"
| "assign (Set_completed_at v) r = r\<lparr>completed_at := v\<rparr>"
| "assign (Set_llm_confidence v) r = r\<lparr>llm_confidence := v\<rparr>"
| "assign (Set_raw_input v) r = r\<lparr>raw_input := v\<rparr>"

text \<open>Whether a \<open>SET\<close> clause names a column: what \<open>UPDATE OF status\<close> asks.\<close>

fun is_Set_id :: "set_clause \<Rightarrow> bool" where
  "is_Set_id (Set_id v) = True"
| "is_Set_id _ = False"

fun is_Set_status :: "set_clause \<Rightarrow> bool" where
  "is_Set_status (Set_status v) = True"
| "is_Set_status _ = False"

fun is_Set_priority :: "set_clause \<Rightarrow> bool" where
  "is_Set_priority (Set_priority v) = True"
| "is_Set_priority _ = False"

fun is_Set_completed_at :: "set_clause \<Rightarrow> bool" where
  "is_Set_completed_at (Set_completed_at v) = True"
| "is_Set_completed_at _ = False"

subsection \<open>Triggers\<close>

text \<open>
  Each trigger is a function of the statement's \<open>SET\<close> clause, \<open>OLD\<close>, \<open>NEW\<close> and the
  database, with its condition inside: \<open>AFTER UPDATE OF c\<close> asks that the clause names
  the column \<open>c\<close>, \<open>WHEN\<close> compares \<open>OLD\<close> and \<open>NEW\<close>. Recursive triggers are off (SQLite's default), so the \<open>UPDATE\<close> inside
  \<open>trg_backlog_updated\<close> does not fire \<open>trg_backlog_updated\<close> again; it names neither
  \<open>status\<close> nor \<open>priority\<close>, so it fires none of the other three.
\<close>

definition trg_backlog_updated :: "datetime \<Rightarrow> backlog_items_row \<Rightarrow> db \<Rightarrow> db" where
  "trg_backlog_updated now new d =
     d\<lparr>backlog_items :=
         map (\<lambda>r. if id_bi r = id_bi new then r\<lparr>updated_at := Some now\<rparr> else r)
           (backlog_items d)\<rparr>"

definition trg_log_status_change ::
  "datetime \<Rightarrow> set_clause list \<Rightarrow> backlog_items_row \<Rightarrow> backlog_items_row \<Rightarrow> db \<Rightarrow> db" where
  "trg_log_status_change now sets old new d =
     (if list_ex is_Set_status sets \<and> status old \<noteq> status new
      then insert_backlog_event now (id_bi new) (external_id new) ''status_changed''
             [(''old_status'', status old), (''new_status'', status new)] ''system'' d
      else d)"

definition trg_log_priority_change ::
  "datetime \<Rightarrow> set_clause list \<Rightarrow> backlog_items_row \<Rightarrow> backlog_items_row \<Rightarrow> db \<Rightarrow> db" where
  "trg_log_priority_change now sets old new d =
     (if list_ex is_Set_priority sets \<and> priority old \<noteq> priority new
      then insert_backlog_event now (id_bi new) (external_id new) ''priority_changed''
             [(''old_priority'', priority old), (''new_priority'', priority new)] ''system'' d
      else d)"

text \<open>
  The \<open>UPDATE\<close> inside \<open>trg_set_completed_at\<close> is an update of \<open>backlog_items\<close> and so
  fires \<open>trg_backlog_updated\<close> for the same row.
\<close>

definition trg_set_completed_at ::
  "datetime \<Rightarrow> set_clause list \<Rightarrow> backlog_items_row \<Rightarrow> backlog_items_row \<Rightarrow> db \<Rightarrow> db" where
  "trg_set_completed_at now sets old new d =
     (if list_ex is_Set_status sets \<and> status new = ''done'' \<and> status old \<noteq> ''done''
      then trg_backlog_updated now new
             (d\<lparr>backlog_items :=
                  map (\<lambda>r. if id_bi r = id_bi new then r\<lparr>completed_at := Some now\<rparr> else r)
                    (backlog_items d)\<rparr>)
      else d)"

subsection \<open>UPDATE\<close>

definition find_item :: "int \<Rightarrow> db \<Rightarrow> backlog_items_row option" where
  "find_item k d = find (\<lambda>r. id_bi r = k) (backlog_items d)"

text \<open>
  The \<open>AFTER UPDATE\<close> triggers of \<open>backlog_items\<close> for one updated row, in the order of
  the schema. The four bodies write different columns or another table, and the same
  \<open>now\<close>, so only the keys of two events written by one statement depend on that order.
\<close>

definition after_update_triggers ::
  "datetime \<Rightarrow> set_clause list \<Rightarrow> backlog_items_row \<Rightarrow> backlog_items_row \<Rightarrow> db \<Rightarrow> db" where
  "after_update_triggers now sets old new d =
     trg_set_completed_at now sets old new
       (trg_log_priority_change now sets old new
         (trg_log_status_change now sets old new
           (trg_backlog_updated now new d)))"

text \<open>
  \<open>UPDATE backlog_items SET ... WHERE id = k\<close>. With no such row the statement changes
  nothing and fires no trigger. Otherwise \<open>NEW\<close> is \<open>OLD\<close> with the assignments made; a
  violated constraint aborts the statement and the database stays as it was; else the row
  is written and the triggers run.
\<close>

definition update_backlog_item ::
  "datetime \<Rightarrow> int \<Rightarrow> set_clause list \<Rightarrow> db \<Rightarrow> sql_error + db" where
  "update_backlog_item now k sets d =
     (case find_item k d of
        None \<Rightarrow> Inr d
      | Some old \<Rightarrow>
          (let new = fold assign sets old
           in case constraint_error (filter (\<lambda>r. id_bi r \<noteq> k) (backlog_items d)) new of
                Some e \<Rightarrow> Inl e
              | None \<Rightarrow>
                  Inr (after_update_triggers now sets old new
                        (d\<lparr>backlog_items :=
                             map (\<lambda>r. if id_bi r = k then new else r) (backlog_items d)\<rparr>))))"

subsection \<open>Sequences of statements\<close>

text \<open>
  SQLite runs one writing statement at a time, so what several clients send, also at the
  same moment, reaches the database as a sequence of statements, each with its own
  \<open>CURRENT_TIMESTAMP\<close>. A failed statement ends the run here.
\<close>

datatype statement =
    Insert "int option" backlog_items_row
  | Update int "set_clause list"

fun exec :: "datetime \<times> statement \<Rightarrow> db \<Rightarrow> sql_error + db" where
  "exec (now, Insert key r) d = insert_backlog_item key r d"
| "exec (now, Update k sets) d = update_backlog_item now k sets d"

fun run :: "(datetime \<times> statement) list \<Rightarrow> db \<Rightarrow> sql_error + db" where
  "run [] d = Inr d"
| "run (st # sts) d = (case exec st d of Inl e \<Rightarrow> Inl e | Inr d' \<Rightarrow> run sts d')"

fun assigns_id :: "datetime \<times> statement \<Rightarrow> bool" where
  "assigns_id (now, Insert key r) = False"
| "assigns_id (now, Update k sets) = list_ex is_Set_id sets"

subsection \<open>Reading the tables\<close>

definition events_of :: "int \<Rightarrow> db \<Rightarrow> backlog_events_row list" where
  "events_of k d = filter (\<lambda>e. item_id_ev e = k) (backlog_events d)"

definition count_events :: "string \<Rightarrow> db \<Rightarrow> nat" where
  "count_events ty d = length (filter (\<lambda>e. event_type e = ty) (backlog_events d))"

text \<open>What an event says: the item, the type and the data.\<close>

definition ev_fact :: "backlog_events_row \<Rightarrow> int \<times> string \<times> (string \<times> string) list option" where
  "ev_fact e = (item_id_ev e, event_type e, event_data e)"

definition done_has_completed_at :: "db \<Rightarrow> bool" where
  "done_has_completed_at d =
     (\<forall>r \<in> set (backlog_items d). status r = ''done'' \<longrightarrow> completed_at r \<noteq> None)"

text \<open>
  The row that a successful \<open>UPDATE\<close> with the clause \<open>sets\<close> leaves in place of \<open>old\<close>, in
  closed form (\<open>update_backlog_item_rows\<close> below proves that it is).
\<close>

definition stored_row :: "datetime \<Rightarrow> set_clause list \<Rightarrow> backlog_items_row \<Rightarrow> backlog_items_row" where
  "stored_row now sets old =
     (let new = fold assign sets old
      in if status new = ''done'' \<and> status old \<noteq> ''done''
         then new\<lparr>updated_at := Some now, completed_at := Some now\<rparr>
         else new\<lparr>updated_at := Some now\<rparr>)"

text \<open>What the two logging triggers write for \<open>OLD\<close> and \<open>NEW\<close>, as facts.\<close>

definition status_facts ::
  "backlog_items_row \<Rightarrow> backlog_items_row \<Rightarrow> (int \<times> string \<times> (string \<times> string) list option) list" where
  "status_facts old new =
     (if status old \<noteq> status new
      then [(id_bi new, ''status_changed'',
             Some [(''old_status'', status old), (''new_status'', status new)])]
      else [])"

definition priority_facts ::
  "backlog_items_row \<Rightarrow> backlog_items_row \<Rightarrow> (int \<times> string \<times> (string \<times> string) list option) list" where
  "priority_facts old new =
     (if priority old \<noteq> priority new
      then [(id_bi new, ''priority_changed'',
             Some [(''old_priority'', priority old), (''new_priority'', priority new)])]
      else [])"

subsection \<open>Replay, as the specification words it\<close>

text \<open>
  The repository has no replay of its own. This is the replay of the specification
  ("rebuildable by replaying Events in sequence order"), on the two columns whose changes
  the schema logs: a \<open>status_changed\<close> event sets the status to its \<open>new_status\<close>, a
  \<open>priority_changed\<close> event the priority to its \<open>new_priority\<close>, any other event leaves
  both.
\<close>

fun replay_event :: "backlog_events_row \<Rightarrow> string \<times> string \<Rightarrow> string \<times> string" where
  "replay_event e (s, p) =
     (if event_type e = ''status_changed''
      then (case event_data e of
              None \<Rightarrow> (s, p)
            | Some m \<Rightarrow> (case map_of m ''new_status'' of None \<Rightarrow> (s, p) | Some s' \<Rightarrow> (s', p)))
      else if event_type e = ''priority_changed''
      then (case event_data e of
              None \<Rightarrow> (s, p)
            | Some m \<Rightarrow> (case map_of m ''new_priority'' of None \<Rightarrow> (s, p) | Some p' \<Rightarrow> (s, p')))
      else (s, p))"

definition replay :: "backlog_events_row list \<Rightarrow> string \<times> string \<Rightarrow> string \<times> string" where
  "replay evs init = fold replay_event evs init"

subsection \<open>The transition table of the specification\<close>

text \<open>
  Modelled from the spec: the table of the changes of status that may be asked for,
  \<open>open \<rightarrow> needs_clarification \<rightarrow> in_progress \<rightarrow> blocked \<rightarrow> done\<close>,
  \<open>blocked \<rightarrow> in_progress\<close>, \<open>cancelled\<close> from every state but \<open>done\<close> and \<open>cancelled\<close>,
  and \<open>cancelled \<rightarrow> open\<close>. The way back from \<open>needs_clarification\<close> to the status before
  it is not in the table: it is taken only by the answer to the last open clarification
  (\<open>restore_status\<close> below), as the entry is forced by \<open>ask\<close>.
\<close>

definition spec_item_transition :: "string \<Rightarrow> string \<Rightarrow> bool" where
  "spec_item_transition s s' =
     ((s, s') \<in> set [(''open'', ''needs_clarification''),
                     (''needs_clarification'', ''in_progress''),
                     (''in_progress'', ''blocked''),
                     (''blocked'', ''done''),
                     (''blocked'', ''in_progress''),
                     (''open'', ''cancelled''),
                     (''needs_clarification'', ''cancelled''),
                     (''in_progress'', ''cancelled''),
                     (''blocked'', ''cancelled''),
                     (''cancelled'', ''open'')])"

subsection \<open>Example data\<close>

text \<open>The item of the specification's scenario, as the first row of an empty database.\<close>

definition ex_item :: backlog_items_row where
  "ex_item = (default_row 1 ''e1'' ''Fix login bug'')\<lparr>id_bi := 1\<rparr>"

definition ex_db :: db where
  "ex_db = empty_db\<lparr>backlog_items := [ex_item], seq_backlog_items := 1\<rparr>"

subsection \<open>The view \<open>v_active_by_priority\<close>\<close>

text \<open>
  The \<open>CASE priority\<close> of the \<open>ORDER BY\<close>: without \<open>ELSE\<close> it is \<open>NULL\<close> for any other
  text. In an ascending order SQLite puts \<open>NULL\<close> first, as the order on \<open>option\<close> puts
  \<open>None\<close>.
\<close>

definition priority_rank :: "string \<Rightarrow> nat option" where
  "priority_rank p =
     (if p = ''P0'' then Some 1
      else if p = ''P1'' then Some 2
      else if p = ''P2'' then Some 3
      else if p = ''P3'' then Some 4
      else None)"

text \<open>\<open>WHERE status NOT IN ('done', 'cancelled')\<close>.\<close>

definition is_active :: "backlog_items_row \<Rightarrow> bool" where
  "is_active r = (status r \<notin> set [''done'', ''cancelled''])"

text \<open>The two terms of the \<open>ORDER BY\<close>.\<close>

definition order_key :: "backlog_items_row \<Rightarrow> nat option \<times> datetime option" where
  "order_key r = (priority_rank (priority r), created_at r)"

text \<open>
  The rows of the view, in its order; its select list (\<open>external_id\<close>, \<open>title\<close>,
  \<open>category\<close>, \<open>priority\<close>, \<open>status\<close>, \<open>next_action\<close>, \<open>created_at\<close> and the age in
  days) is read off them. SQL leaves the order of rows that agree on both terms of the
  \<open>ORDER BY\<close> open; here they keep the order of the table scan, by key, as SQLite's
  sorter gives them.
\<close>

definition v_active_by_priority :: "db \<Rightarrow> backlog_items_row list" where
  "v_active_by_priority d =
     sort_key order_key (sort_key id_bi (filter is_active (backlog_items d)))"


text \<open>Three items, one of them done, and the two rows the view shows for them.\<close>

definition ex_view_db :: db where
  "ex_view_db = empty_db\<lparr>backlog_items :=
      [(default_row 5 ''e1'' ''Write report'')\<lparr>id_bi := 1\<rparr>,
       (default_row 7 ''e2'' ''Restore backup'')\<lparr>id_bi := 2, priority := ''P0'',
          status := ''in_progress''\<rparr>,
       (default_row 6 ''e3'' ''Renew licence'')\<lparr>id_bi := 3, priority := ''P1'',
          status := ''done''\<rparr>],
      seq_backlog_items := 3\<rparr>"

definition ex_view_rows :: "backlog_items_row list" where
  "ex_view_rows =
      [(default_row 7 ''e2'' ''Restore backup'')\<lparr>id_bi := 2, priority := ''P0'',
          status := ''in_progress''\<rparr>,
       (default_row 5 ''e1'' ''Write report'')\<lparr>id_bi := 1\<rparr>]"

section \<open>Agent sessions\<close>

subsection \<open>The Kanban view of the dashboard (the Vue application)\<close>

text \<open>
  The buttons that the session card and the session detail dialog show for a session in
  a given state, in the order of the template, each as the call its \<open>@click\<close> makes. A
  state is the text the server sends.
\<close>

datatype session_call =
    startSession string
  | approveSession string bool
  | pauseSession string
  | resumeSession string
  | completeSession string
  | failSession string

text \<open>The quick actions of a session card (\<open>div.session-actions\<close>).\<close>

definition session_actions :: "string \<Rightarrow> string \<Rightarrow> session_call list" where
  "session_actions session_id st =
     (if st = ''idle'' then [startSession session_id] else []) @
     (if st = ''waiting_for_approval'' then [approveSession session_id True] else []) @
     (if st = ''waiting_for_approval'' then [approveSession session_id False] else []) @
     (if st = ''working'' then [pauseSession session_id] else []) @
     (if st = ''paused'' then [resumeSession session_id] else [])"

text \<open>The footer of the session detail dialog (\<open>footer.modal-actions\<close>).\<close>

definition modal_actions :: "string \<Rightarrow> string \<Rightarrow> session_call list" where
  "modal_actions session_id st =
     (if st = ''idle'' then [startSession session_id] else []) @
     (if st = ''working'' then [pauseSession session_id] else []) @
     (if st = ''paused'' then [resumeSession session_id] else []) @
     (if st = ''waiting_for_approval'' then [approveSession session_id True] else []) @
     (if st = ''waiting_for_approval'' then [approveSession session_id False] else []) @
     (if st = ''working'' then [completeSession session_id] else []) @
     (if st \<in> set [''working'', ''paused''] then [failSession session_id] else [])"

text \<open>
  What \<open>approveSession(sessionId, approved)\<close> posts: the endpoint and the body
  \<open>{approved, reason: approved ? null : 'Denied by user'}\<close>.
\<close>

record approval_request =
  endpoint :: string
  approved :: bool
  reason :: "string option"

definition approveSession_request :: "string \<Rightarrow> bool \<Rightarrow> approval_request" where
  "approveSession_request sessionId appr =
     \<lparr>endpoint = ''/kanban/sessions/'' @ sessionId @ ''/approval'', approved = appr,
      reason = (if appr then None else Some ''Denied by user'')\<rparr>"

subsection \<open>The session state machine\<close>

text \<open>
  Modelled from the spec: the server behind \<open>/kanban/sessions\<close> is not among the sources,
  only the dashboard that calls it. The states, the errors, the session and the
  operations below follow section 4.4 of the specification: \<open>start\<close> is legal only from
  \<open>idle\<close>; \<open>requestApproval\<close> moves \<open>working\<close> to \<open>waiting_for_approval\<close>;
  \<open>resolveApproval\<close> is legal only from \<open>waiting_for_approval\<close> and moves to \<open>working\<close>
  (approved) or \<open>failed\<close> (denied); \<open>pause\<close> and \<open>resume\<close> toggle between \<open>working\<close> and
  \<open>paused\<close>; \<open>complete\<close> and \<open>fail\<close> are legal from every state that is not terminal;
  \<open>completed\<close> and \<open>failed\<close> are terminal. An operation on an unknown id fails with
  \<open>NotFound\<close>, an illegal one with \<open>InvalidTransition\<close>; a failed operation returns no
  store, the store stays as it was. A transition writes the session and appends one
  event.
\<close>

text \<open>Modelled from the spec: the states of a session.\<close>

datatype session_state =
  idle | working | waiting_for_approval | waiting_for_input | paused | completed | failed

text \<open>Modelled from the spec: the errors of section 7 that the operations return.\<close>

datatype engine_error = NotFound | Conflict | InvalidTransition | ValidationError

text \<open>Modelled from the spec: the session of section 3.\<close>

record session =
  session_id :: string
  project_id :: string
  agent_type :: string
  goal :: string
  state :: session_state
  session_context :: "string option"
  result :: "string option"
  error :: "string option"
  pr_ref :: "string option"
  ci_status :: "string option"
  session_created_at :: datetime
  session_updated_at :: datetime

text \<open>Modelled from the spec: the event that a transition appends.\<close>

record session_event =
  event_session_id :: string
  event_name :: string
  event_state :: session_state
  event_timestamp :: datetime

text \<open>Modelled from the spec: the materialized sessions, by id, and their event log.\<close>

record session_store =
  sessions :: "string \<rightharpoonup> session"
  session_events :: "session_event list"

text \<open>Modelled from the spec: the operations of the contract, with their arguments.\<close>

datatype session_op =
    Start
  | RequestApproval string
  | ResolveApproval bool string
  | Pause
  | Resume
  | Complete string
  | Fail string

text \<open>Modelled from the spec: the terminal states.\<close>

definition terminal :: "session_state \<Rightarrow> bool" where
  "terminal s = (s = completed \<or> s = failed)"

text \<open>Modelled from the spec: the transition table of section 4.4.\<close>

fun transition :: "session_state \<Rightarrow> session_op \<Rightarrow> session_state option" where
  "transition s Start = (if s = idle then Some working else None)"
| "transition s (RequestApproval r) = (if s = working then Some waiting_for_approval else None)"
| "transition s (ResolveApproval a r) =
     (if s = waiting_for_approval then Some (if a then working else failed) else None)"
| "transition s Pause = (if s = working then Some paused else None)"
| "transition s Resume = (if s = paused then Some working else None)"
| "transition s (Complete r) = (if terminal s then None else Some completed)"
| "transition s (Fail e) = (if terminal s then None else Some failed)"

text \<open>Modelled from the spec: the name under which an operation is logged.\<close>

fun op_name :: "session_op \<Rightarrow> string" where
  "op_name Start = ''start''"
| "op_name (RequestApproval r) = ''requestApproval''"
| "op_name (ResolveApproval a r) = ''resolveApproval''"
| "op_name Pause = ''pause''"
| "op_name Resume = ''resume''"
| "op_name (Complete r) = ''complete''"
| "op_name (Fail e) = ''fail''"

text \<open>
  Modelled from the spec: \<open>complete(id, result)\<close> and \<open>fail(id, error)\<close> store their
  argument; a denial stores its reason as the error.
\<close>

fun record_outcome :: "session_op \<Rightarrow> session \<Rightarrow> session" where
  "record_outcome (Complete r) s = s\<lparr>result := Some r\<rparr>"
| "record_outcome (Fail e) s = s\<lparr>error := Some e\<rparr>"
| "record_outcome (ResolveApproval a r) s = (if a then s else s\<lparr>error := Some r\<rparr>)"
| "record_outcome _ s = s"

text \<open>Modelled from the spec: one operation on the session \<open>sid\<close>, atomic.\<close>

definition apply_op ::
  "datetime \<Rightarrow> string \<Rightarrow> session_op \<Rightarrow> session_store \<Rightarrow> engine_error + session_store" where
  "apply_op now sid opn st =
     (case sessions st sid of
        None \<Rightarrow> Inl NotFound
      | Some s \<Rightarrow>
          (case transition (state s) opn of
             None \<Rightarrow> Inl InvalidTransition
           | Some s' \<Rightarrow>
               Inr (st\<lparr>sessions := (sessions st)(sid \<mapsto>
                          (record_outcome opn s)\<lparr>state := s', session_updated_at := now\<rparr>),
                       session_events := session_events st @
                          [\<lparr>event_session_id = sid, event_name = op_name opn, event_state = s',
                            event_timestamp = now\<rparr>]\<rparr>)))"

text \<open>
  Modelled from the spec: \<open>create(session_id, project_id, goal, agent_type)\<close> fails with
  \<open>Conflict\<close> if the id exists; a new session is \<open>idle\<close>.
\<close>

definition create_session ::
  "datetime \<Rightarrow> string \<Rightarrow> string \<Rightarrow> string \<Rightarrow> string \<Rightarrow> session_store \<Rightarrow>
   engine_error + session_store" where
  "create_session now sid pid g agent st =
     (case sessions st sid of
        Some s \<Rightarrow> Inl Conflict
      | None \<Rightarrow>
          Inr (st\<lparr>sessions := (sessions st)(sid \<mapsto>
                     \<lparr>session_id = sid, project_id = pid, agent_type = agent, goal = g,
                      state = idle, session_context = None, result = None, error = None,
                      pr_ref = None, ci_status = None, session_created_at = now,
                      session_updated_at = now\<rparr>),
                  session_events := session_events st @
                     [\<lparr>event_session_id = sid, event_name = ''create'', event_state = idle,
                       event_timestamp = now\<rparr>]\<rparr>))"

text \<open>Modelled from the spec: \<open>start(id)\<close>.\<close>

definition start ::
  "datetime \<Rightarrow> string \<Rightarrow> session_store \<Rightarrow> engine_error + session_store" where
  "start now sid = apply_op now sid Start"

text \<open>Modelled from the spec: \<open>requestApproval(id, reason)\<close>.\<close>

definition requestApproval ::
  "datetime \<Rightarrow> string \<Rightarrow> string \<Rightarrow> session_store \<Rightarrow> engine_error + session_store" where
  "requestApproval now sid r = apply_op now sid (RequestApproval r)"

text \<open>Modelled from the spec: \<open>resolveApproval(id, approved, reason)\<close>.\<close>

definition resolveApproval ::
  "datetime \<Rightarrow> string \<Rightarrow> bool \<Rightarrow> string \<Rightarrow> session_store \<Rightarrow> engine_error + session_store" where
  "resolveApproval now sid a r = apply_op now sid (ResolveApproval a r)"

text \<open>Modelled from the spec: \<open>pause(id)\<close>.\<close>

definition pause ::
  "datetime \<Rightarrow> string \<Rightarrow> session_store \<Rightarrow> engine_error + session_store" where
  "pause now sid = apply_op now sid Pause"

text \<open>Modelled from the spec: \<open>resume(id)\<close>.\<close>

definition resume ::
  "datetime \<Rightarrow> string \<Rightarrow> session_store \<Rightarrow> engine_error + session_store" where
  "resume now sid = apply_op now sid Resume"

text \<open>Modelled from the spec: \<open>complete(id, result)\<close>.\<close>

definition complete ::
  "datetime \<Rightarrow> string \<Rightarrow> string \<Rightarrow> session_store \<Rightarrow> engine_error + session_store" where
  "complete now sid r = apply_op now sid (Complete r)"

text \<open>Modelled from the spec: \<open>fail(id, error)\<close>.\<close>

definition fail ::
  "datetime \<Rightarrow> string \<Rightarrow> string \<Rightarrow> session_store \<Rightarrow> engine_error + session_store" where
  "fail now sid e = apply_op now sid (Fail e)"

text \<open>Modelled from the spec: the store before any session is created.\<close>

definition empty_store :: session_store where
  "empty_store = \<lparr>sessions = Map.empty, session_events = []\<rparr>"

text \<open>One operation after another; the first failure ends the sequence.\<close>

definition and_then :: "'e + 'a \<Rightarrow> ('a \<Rightarrow> 'e + 'b) \<Rightarrow> 'e + 'b" where
  "and_then r f = (case r of Inl e \<Rightarrow> Inl e | Inr x \<Rightarrow> f x)"

text \<open>
  The session of the specification's scenario after \<open>create\<close>, \<open>start\<close> and
  \<open>requestApproval\<close>.
\<close>

definition ex_session :: session where
  "ex_session =
     \<lparr>session_id = ''s1'', project_id = ''proj-x'', agent_type = ''general'',
      goal = ''Refactor auth'', state = waiting_for_approval, session_context = None,
      result = None, error = None, pr_ref = None, ci_status = None,
      session_created_at = 1, session_updated_at = 3\<rparr>"

definition ex_store :: session_store where
  "ex_store =
     \<lparr>sessions = [''s1'' \<mapsto> ex_session],
      session_events =
        [\<lparr>event_session_id = ''s1'', event_name = ''create'', event_state = idle,
          event_timestamp = 1\<rparr>,
         \<lparr>event_session_id = ''s1'', event_name = ''start'', event_state = working,
          event_timestamp = 2\<rparr>,
         \<lparr>event_session_id = ''s1'', event_name = ''requestApproval'',
          event_state = waiting_for_approval, event_timestamp = 3\<rparr>]\<rparr>"

section \<open>The item engine\<close>

subsection \<open>The clarifications table and its view (data/backlog/schema.sql)\<close>

fun is_Set_external_id :: "set_clause \<Rightarrow> bool" where
  "is_Set_external_id (Set_external_id v) = True"
| "is_Set_external_id _ = False"

text \<open>
  \<open>INSERT INTO clarifications (item_id, question, thread_ts)\<close>: the key is generated,
  \<open>asked_at\<close> is the current time, the answer is \<open>NULL\<close>.
\<close>

definition insert_clarification ::
  "datetime \<Rightarrow> int \<Rightarrow> string \<Rightarrow> string option \<Rightarrow> db \<Rightarrow> db" where
  "insert_clarification now k q thread d =
     (let c = next_rowid (seq_clarifications d) (map id_cl (clarifications d))
      in d\<lparr>clarifications := clarifications d @
               [\<lparr>id_cl = c, item_id_cl = k, question = q, answer = None, asked_at = Some now,
                 answered_at = None, thread_ts = thread\<rparr>],
            seq_clarifications := c\<rparr>)"

text \<open>
  The view \<open>v_needs_clarification\<close>: the join of the items in status
  \<open>needs_clarification\<close> with their unanswered clarifications, by \<open>asked_at\<close>. Its select
  list (\<open>external_id\<close>, \<open>title\<close>, \<open>raw_input\<close>, \<open>question\<close>, \<open>asked_at\<close>) is read off
  the pairs. SQLite scans the clarifications, by key, and looks the item of each up by
  its primary key; rows with the same \<open>asked_at\<close> keep that order.
\<close>

definition v_needs_clarification :: "db \<Rightarrow> (backlog_items_row \<times> clarifications_row) list" where
  "v_needs_clarification d =
     sort_key (\<lambda>(b, c). asked_at c)
       (concat (map (\<lambda>c. map (\<lambda>b. (b, c))
                  (filter (\<lambda>b. id_bi b = item_id_cl c \<and> status b = ''needs_clarification'' \<and>
                               answer c = None) (backlog_items d)))
          (sort_key id_cl (clarifications d))))"

subsection \<open>The operations on items\<close>

text \<open>
  Modelled from the spec: the server behind \<open>/backlog\<close> is not among the sources, only the
  schema it writes to and the dashboard that calls it. The operations below follow
  sections 4.1 and 4.2 of the specification and act on the database of the schema, so
  every write of a row runs the schema's constraints and triggers. An operation that
  fails returns no database: the store stays as it was. Items and clarifications are
  addressed by their keys; the deletion path of the API addresses an item by its external
  id, as the dashboard's \<open>deleteTask\<close> does.
\<close>

text \<open>Modelled from the spec: the fields of \<open>create(fields)\<close>; only the title is required.\<close>

record item_fields =
  f_title :: string
  f_description :: "string option"
  f_category :: "string option"
  f_priority :: "string option"
  f_type :: "string option"
  f_raw_input :: "string option"

text \<open>Modelled from the spec: the patch of \<open>update(id, patch)\<close>; \<open>None\<close> leaves a field.\<close>

record item_patch =
  p_title :: "string option"
  p_description :: "string option"
  p_category :: "string option"
  p_next_action :: "string option"
  p_priority :: "string option"
  p_status :: "string option"

text \<open>Modelled from the spec: the patch that changes nothing.\<close>

definition no_patch :: item_patch where
  "no_patch = \<lparr>p_title = None, p_description = None, p_category = None, p_next_action = None,
     p_priority = None, p_status = None\<rparr>"

text \<open>Modelled from the spec: the assignments of a patch to the plain fields.\<close>

definition field_sets :: "item_patch \<Rightarrow> set_clause list" where
  "field_sets p =
     (case p_title p of None \<Rightarrow> [] | Some v \<Rightarrow> [Set_title v]) @
     (case p_description p of None \<Rightarrow> [] | Some v \<Rightarrow> [Set_description (Some v)]) @
     (case p_category p of None \<Rightarrow> [] | Some v \<Rightarrow> [Set_category v]) @
     (case p_next_action p of None \<Rightarrow> [] | Some v \<Rightarrow> [Set_next_action (Some v)])"

text \<open>
  Modelled from the spec: all assignments of a patch. The key and the external id are
  immutable: no patch assigns them.
\<close>

definition patch_sets :: "item_patch \<Rightarrow> set_clause list" where
  "patch_sets p =
     field_sets p @
     (case p_priority p of None \<Rightarrow> [] | Some v \<Rightarrow> [Set_priority v]) @
     (case p_status p of None \<Rightarrow> [] | Some v \<Rightarrow> [Set_status v])"

text \<open>
  Modelled from the spec: \<open>create(fields)\<close> validates the required title, defaults
  priority \<open>P2\<close>, type \<open>personal\<close> and status \<open>open\<close>, stores the item under the external
  id assigned to it and writes a \<open>created\<close> event.
\<close>

definition create_item ::
  "datetime \<Rightarrow> string \<Rightarrow> item_fields \<Rightarrow> db \<Rightarrow> engine_error + db" where
  "create_item now ext f d =
     (if f_title f = [] then Inl ValidationError
      else
        (let r = (default_row now ext (f_title f))
                   \<lparr>description := f_description f,
                    category := (case f_category f of None \<Rightarrow> ''Personal'' | Some c \<Rightarrow> c),
                    priority := (case f_priority f of None \<Rightarrow> ''P2'' | Some p \<Rightarrow> p),
                    item_type := (case f_type f of None \<Rightarrow> ''personal'' | Some t \<Rightarrow> t),
                    raw_input := f_raw_input f\<rparr>
         in case insert_backlog_item None r d of
              Inl e \<Rightarrow> Inl ValidationError
            | Inr d1 \<Rightarrow>
                Inr (insert_backlog_event now (seq_backlog_items d1) ext ''created''
                       [(''title'', f_title f)] ''system'' d1)))"

text \<open>
  Modelled from the spec: \<open>update(id, patch)\<close> fails with \<open>NotFound\<close> on an unknown id and
  with \<open>InvalidTransition\<close> when the patch asks for a change of status outside the
  transition table; otherwise it writes the row (the triggers log a change of status and
  of priority) and one \<open>field_updated\<close> event when a plain field changed.
\<close>

definition update_item :: "datetime \<Rightarrow> int \<Rightarrow> item_patch \<Rightarrow> db \<Rightarrow> engine_error + db" where
  "update_item now k p d =
     (case find_item k d of
        None \<Rightarrow> Inl NotFound
      | Some old \<Rightarrow>
          if (case p_status p of
                None \<Rightarrow> False
              | Some s \<Rightarrow> s \<noteq> status old \<and> \<not> spec_item_transition (status old) s)
          then Inl InvalidTransition
          else
            (case update_backlog_item now k (patch_sets p) d of
               Inl e \<Rightarrow> Inl ValidationError
             | Inr d1 \<Rightarrow>
                 Inr (if fold assign (field_sets p) old \<noteq> old
                      then insert_backlog_event now k (external_id old) ''field_updated''
                             [] ''user'' d1
                      else d1)))"

text \<open>Modelled from the spec: the restricted entry point \<open>changeStatus\<close>.\<close>

definition changeStatus :: "datetime \<Rightarrow> int \<Rightarrow> string \<Rightarrow> db \<Rightarrow> engine_error + db" where
  "changeStatus now k s d = update_item now k (no_patch\<lparr>p_status := Some s\<rparr>) d"

text \<open>Modelled from the spec: the restricted entry point \<open>changePriority\<close>.\<close>

definition changePriority :: "datetime \<Rightarrow> int \<Rightarrow> string \<Rightarrow> db \<Rightarrow> engine_error + db" where
  "changePriority now k p d = update_item now k (no_patch\<lparr>p_priority := Some p\<rparr>) d"

text \<open>
  Modelled from the spec: the deletion path (\<open>DELETE /backlog/{id}\<close>); "removal" is the
  transition of the item's status to \<open>cancelled\<close>.
\<close>

definition remove_item :: "datetime \<Rightarrow> string \<Rightarrow> db \<Rightarrow> engine_error + db" where
  "remove_item now ext d =
     (case find (\<lambda>r. external_id r = ext) (backlog_items d) of
        None \<Rightarrow> Inl NotFound
      | Some r \<Rightarrow> changeStatus now (id_bi r) ''cancelled'' d)"

text \<open>
  Modelled from the spec: \<open>ask(item_id, question, thread_ref)\<close> creates a clarification,
  forces the item's status to \<open>needs_clarification\<close> and writes a \<open>clarification_asked\<close>
  event.
\<close>

definition ask :: "datetime \<Rightarrow> int \<Rightarrow> string \<Rightarrow> string option \<Rightarrow> db \<Rightarrow> engine_error + db" where
  "ask now k q thread d =
     (case find_item k d of
        None \<Rightarrow> Inl NotFound
      | Some item \<Rightarrow>
          (case update_backlog_item now k [Set_status ''needs_clarification'']
                  (insert_clarification now k q thread d) of
             Inl e \<Rightarrow> Inl ValidationError
           | Inr d1 \<Rightarrow>
               Inr (insert_backlog_event now k (external_id item) ''clarification_asked''
                      [(''question'', q)] ''system'' d1)))"

text \<open>Modelled from the spec: the clarifications of an item that have no answer yet.\<close>

definition open_clarifications :: "int \<Rightarrow> db \<Rightarrow> clarifications_row list" where
  "open_clarifications k d =
     filter (\<lambda>c. item_id_cl c = k \<and> answer c = None) (clarifications d)"

text \<open>
  Modelled from the spec: the status of an item before its clarification. The
  specification does not say where it is kept; here it is read from the event that the
  trigger wrote when the item entered \<open>needs_clarification\<close>, the latest one, and it is
  \<open>open\<close> when there is none.
\<close>

definition enters_clarification :: "int \<Rightarrow> backlog_events_row \<Rightarrow> bool" where
  "enters_clarification k e =
     (item_id_ev e = k \<and> event_type e = ''status_changed'' \<and>
      (case event_data e of
         None \<Rightarrow> False
       | Some m \<Rightarrow> map_of m ''new_status'' = Some ''needs_clarification''))"

text \<open>Modelled from the spec: the pre-clarification value, \<open>open\<close> by default.\<close>

definition pre_clarification_status :: "int \<Rightarrow> db \<Rightarrow> string" where
  "pre_clarification_status k d =
     (case find (enters_clarification k) (rev (backlog_events d)) of
        None \<Rightarrow> ''open''
      | Some e \<Rightarrow>
          (case event_data e of
             None \<Rightarrow> ''open''
           | Some m \<Rightarrow> (case map_of m ''old_status'' of None \<Rightarrow> ''open'' | Some s \<Rightarrow> s)))"

text \<open>
  Modelled from the spec: recording an answer stores the answer and its time in the
  clarification and writes a \<open>clarification_answered\<close> event.
\<close>

definition record_answer ::
  "datetime \<Rightarrow> int \<Rightarrow> int \<Rightarrow> string \<Rightarrow> clarifications_row \<Rightarrow> backlog_items_row \<Rightarrow> db \<Rightarrow> db" where
  "record_answer now k c a cl item d =
     insert_backlog_event now k (external_id item) ''clarification_answered''
       [(''question'', question cl), (''answer'', a)] ''user''
       (d\<lparr>clarifications :=
            map (\<lambda>x. if id_cl x = c \<and> item_id_cl x = k
                     then x\<lparr>answer := Some a, answered_at := Some now\<rparr>
                     else x) (clarifications d)\<rparr>)"

text \<open>
  Modelled from the spec: when no clarification of the item remains open, its status goes
  back to the pre-clarification value.
\<close>

definition restore_status :: "datetime \<Rightarrow> int \<Rightarrow> db \<Rightarrow> engine_error + db" where
  "restore_status now k d =
     (if open_clarifications k d = []
      then (case update_backlog_item now k [Set_status (pre_clarification_status k d)] d of
              Inl e \<Rightarrow> Inl ValidationError
            | Inr d' \<Rightarrow> Inr d')
      else Inr d)"

text \<open>
  Modelled from the spec: \<open>answer(item_id, question_ref, answer_text)\<close> fails with
  \<open>NotFound\<close> when the clarification does not exist; returns the prior answer, and
  changes nothing, when it is answered already; otherwise records the answer and restores
  the status. It returns the answer that now stands.
\<close>

definition answer_clarification ::
  "datetime \<Rightarrow> int \<Rightarrow> int \<Rightarrow> string \<Rightarrow> db \<Rightarrow> engine_error + string \<times> db" where
  "answer_clarification now k c a d =
     (case find (\<lambda>x. id_cl x = c \<and> item_id_cl x = k) (clarifications d) of
        None \<Rightarrow> Inl NotFound
      | Some cl \<Rightarrow>
          (case answer cl of
             Some prior \<Rightarrow> Inr (prior, d)
           | None \<Rightarrow>
               (case find_item k d of
                  None \<Rightarrow> Inl NotFound
                | Some item \<Rightarrow>
                    (case restore_status now k (record_answer now k c a cl item d) of
                       Inl e \<Rightarrow> Inl e
                     | Inr d' \<Rightarrow> Inr (a, d')))))"

text \<open>Modelled from the spec: the operations, as commands, and runs of them.\<close>

datatype engine_op =
    Create string item_fields
  | UpdateItem int item_patch
  | ChangeStatus int string
  | ChangePriority int string
  | Remove string
  | Ask int string "string option"
  | Answer int int string

fun engine_step :: "datetime \<times> engine_op \<Rightarrow> db \<Rightarrow> engine_error + db" where
  "engine_step (now, Create ext f) d = create_item now ext f d"
| "engine_step (now, UpdateItem k p) d = update_item now k p d"
| "engine_step (now, ChangeStatus k s) d = changeStatus now k s d"
| "engine_step (now, ChangePriority k p) d = changePriority now k p d"
| "engine_step (now, Remove ext) d = remove_item now ext d"
| "engine_step (now, Ask k q t) d = ask now k q t d"
| "engine_step (now, Answer k c a) d = map_sum id snd (answer_clarification now k c a d)"

fun engine_run :: "(datetime \<times> engine_op) list \<Rightarrow> db \<Rightarrow> engine_error + db" where
  "engine_run [] d = Inr d"
| "engine_run (x # xs) d = (case engine_step x d of Inl e \<Rightarrow> Inl e | Inr d' \<Rightarrow> engine_run xs d')"

text \<open>The identity of the stored items: key and external id, in the order of the table.\<close>

definition item_keys :: "db \<Rightarrow> (int \<times> string) list" where
  "item_keys d = map (\<lambda>r. (id_bi r, external_id r)) (backlog_items d)"

text \<open>Every item of \<open>d\<close> is an item of \<open>d'\<close>, at its place.\<close>

definition keeps_items :: "db \<Rightarrow> db \<Rightarrow> bool" where
  "keeps_items d d' = (take (length (item_keys d)) (item_keys d') = item_keys d)"

text \<open>The fields of a second item.\<close>

definition ex_fields :: item_fields where
  "ex_fields = \<lparr>f_title = ''Rotate API keys'', f_description = None, f_category = None,
     f_priority = Some ''P1'', f_type = None, f_raw_input = None\<rparr>"

subsection \<open>What the constraints keep true\<close>

text \<open>The four \<open>CHECK\<close>s of a row.\<close>

definition checks_ok :: "backlog_items_row \<Rightarrow> bool" where
  "checks_ok r = (priority_check (priority r) \<and> item_type_check (item_type r) \<and>
     status_check (status r) \<and> estimated_effort_check (estimated_effort r))"

text \<open>The constraints of \<open>backlog_items\<close> over the whole table.\<close>

definition schema_ok :: "db \<Rightarrow> bool" where
  "schema_ok d =
     (distinct (map id_bi (backlog_items d)) \<and> distinct (map external_id (backlog_items d)) \<and>
      (\<forall>r \<in> set (backlog_items d). checks_ok r))"

section \<open>The Broadcast Hub\<close>

text \<open>
  Modelled from the spec: the hub that fans change notifications out to the observers is
  not among the sources (\<open>websocket-manager.js\<close> is the browser's end of the connection
  and passes what it receives straight to its event bus). The definitions of this
  section follow sections 4.5 and 5 of the specification. The specification names no
  bound and leaves the choice between dropping and reconnecting open; here the bound is
  the parameter \<open>capacity\<close>, an observer whose queue is full when a notification arrives
  is dropped, and it comes back by subscribing again.
\<close>

text \<open>Modelled from the spec: the state of one entity, as a notification carries it.\<close>

datatype entity_snapshot = Item_snapshot backlog_items_row | Session_snapshot session

text \<open>
  Modelled from the spec: the normalized change notification
  \<open>{entity_type, entity_id, event_type, snapshot}\<close>.
\<close>

record notification =
  entity_type :: string
  entity_id :: string
  change_event_type :: string
  snapshot :: "entity_snapshot option"

text \<open>
  Modelled from the spec: what an observer is sent, the full current snapshot on connect
  and then the notifications.
\<close>

datatype hub_message = Full_snapshot "entity_snapshot list" | Change notification

text \<open>
  Modelled from the spec: the hub, with the bound of its queues and, for each connected
  observer, the messages queued for it and not yet delivered, oldest first.
\<close>

record hub =
  capacity :: nat
  observers :: "(string \<times> hub_message list) list"

text \<open>Modelled from the spec: the hub before any observer connects.\<close>

definition new_hub :: "nat \<Rightarrow> hub" where
  "new_hub cap = \<lparr>capacity = cap, observers = []\<rparr>"

text \<open>Modelled from the spec: no queue holds more messages than the bound.\<close>

definition bounded :: "hub \<Rightarrow> bool" where
  "bounded h = list_all (\<lambda>(ob, q). length q \<le> capacity h) (observers h)"

text \<open>Modelled from the spec: an observer is dropped, with its queue.\<close>

definition drop_observer :: "string \<Rightarrow> hub \<Rightarrow> hub" where
  "drop_observer ob h = h\<lparr>observers := filter (\<lambda>(ob', q). ob' \<noteq> ob) (observers h)\<rparr>"

text \<open>
  Modelled from the spec: the subscribe operation. A new observer starts with the full
  current snapshot in its queue; one that was connected under the same name is replaced.
  A hub whose queues hold nothing can keep no observer.
\<close>

definition subscribe :: "string \<Rightarrow> entity_snapshot list \<Rightarrow> hub \<Rightarrow> hub" where
  "subscribe ob full h =
     (let h1 = drop_observer ob h
      in if capacity h = 0 then h1
         else h1\<lparr>observers := observers h1 @ [(ob, [Full_snapshot full])]\<rparr>)"

text \<open>
  Modelled from the spec: a notification is pushed to all currently connected observers.
  It is appended to every queue that has room; an observer whose queue is full is
  dropped. Nothing here can fail and nothing waits.
\<close>

definition publish :: "notification \<Rightarrow> hub \<Rightarrow> hub" where
  "publish n h =
     h\<lparr>observers :=
         map (\<lambda>(ob, q). (ob, q @ [Change n]))
           (filter (\<lambda>(ob, q). length q < capacity h) (observers h))\<rparr>"

text \<open>
  Modelled from the spec: the delivery of the oldest queued message to an observer, when
  the observer takes it.
\<close>

definition deliver :: "string \<Rightarrow> hub \<Rightarrow> hub_message option \<times> hub" where
  "deliver ob h =
     (case map_of (observers h) ob of
        None \<Rightarrow> (None, h)
      | Some [] \<Rightarrow> (None, h)
      | Some (m # q) \<Rightarrow>
          (Some m,
           h\<lparr>observers := map (\<lambda>(ob', q'). if ob' = ob then (ob', tl q') else (ob', q'))
                              (observers h)\<rparr>))"

text \<open>Modelled from the spec: what happens at the hub, and runs of it.\<close>

datatype hub_event =
    Subscribe string "entity_snapshot list"
  | Publish notification
  | Deliver string
  | Disconnect string

fun hub_step :: "hub_event \<Rightarrow> hub \<Rightarrow> hub" where
  "hub_step (Subscribe ob full) h = subscribe ob full h"
| "hub_step (Publish n) h = publish n h"
| "hub_step (Deliver ob) h = snd (deliver ob h)"
| "hub_step (Disconnect ob) h = drop_observer ob h"

definition hub_run :: "hub_event list \<Rightarrow> hub \<Rightarrow> hub" where
  "hub_run evs h = fold hub_step evs h"

text \<open>Modelled from the spec: the item that an operation of the engine is about.\<close>

fun op_target :: "engine_op \<Rightarrow> db \<Rightarrow> backlog_items_row option" where
  "op_target (Create ext f) d = find (\<lambda>r. external_id r = ext) (backlog_items d)"
| "op_target (UpdateItem k p) d = find_item k d"
| "op_target (ChangeStatus k s) d = find_item k d"
| "op_target (ChangePriority k p) d = find_item k d"
| "op_target (Remove ext) d = find (\<lambda>r. external_id r = ext) (backlog_items d)"
| "op_target (Ask k q t) d = find_item k d"
| "op_target (Answer k c a) d = find_item k d"

text \<open>Modelled from the spec: the event type under which an operation is announced.\<close>

fun engine_op_name :: "engine_op \<Rightarrow> string" where
  "engine_op_name (Create ext f) = ''created''"
| "engine_op_name (UpdateItem k p) = ''field_updated''"
| "engine_op_name (ChangeStatus k s) = ''status_changed''"
| "engine_op_name (ChangePriority k p) = ''priority_changed''"
| "engine_op_name (Remove ext) = ''status_changed''"
| "engine_op_name (Ask k q t) = ''clarification_asked''"
| "engine_op_name (Answer k c a) = ''clarification_answered''"

text \<open>Modelled from the spec: the notification of a write to an item, from the store after it.\<close>

definition item_notification :: "engine_op \<Rightarrow> db \<Rightarrow> notification" where
  "item_notification opn d =
     \<lparr>entity_type = ''item'',
      entity_id = (case op_target opn d of None \<Rightarrow> [] | Some r \<Rightarrow> external_id r),
      change_event_type = engine_op_name opn,
      snapshot = map_option Item_snapshot (op_target opn d)\<rparr>"

text \<open>
  Modelled from the spec: a write to an item with its broadcast. Every successful write
  produces one notification; a write that fails produces none.
\<close>

definition write_item ::
  "datetime \<times> engine_op \<Rightarrow> db \<times> hub \<Rightarrow> engine_error + db \<times> hub" where
  "write_item x dh =
     (case engine_step x (fst dh) of
        Inl e \<Rightarrow> Inl e
      | Inr d' \<Rightarrow> Inr (d', publish (item_notification (snd x) d') (snd dh)))"

text \<open>Modelled from the spec: the notification of a transition of a session.\<close>

definition session_notification :: "string \<Rightarrow> session_op \<Rightarrow> session_store \<Rightarrow> notification" where
  "session_notification sid opn st =
     \<lparr>entity_type = ''session'', entity_id = sid, change_event_type = op_name opn,
      snapshot = map_option Session_snapshot (sessions st sid)\<rparr>"

text \<open>Modelled from the spec: a transition of a session with its broadcast.\<close>

definition write_session ::
  "datetime \<Rightarrow> string \<Rightarrow> session_op \<Rightarrow> session_store \<times> hub \<Rightarrow>
   engine_error + session_store \<times> hub" where
  "write_session now sid opn sh =
     (case apply_op now sid opn (fst sh) of
        Inl e \<Rightarrow> Inl e
      | Inr st' \<Rightarrow> Inr (st', publish (session_notification sid opn st') (snd sh)))"

text \<open>A notification, and a run with a fast and a slow observer.\<close>

definition ex_note :: "string \<Rightarrow> notification" where
  "ex_note ev = \<lparr>entity_type = ''item'', entity_id = ''e1'', change_event_type = ev,
                 snapshot = None\<rparr>"

definition ex_hub_events :: "hub_event list" where
  "ex_hub_events =
     [Subscribe ''fast'' [], Subscribe ''slow'' [], Deliver ''fast'',
      Publish (ex_note ''created'')]"

section \<open>Properties of the backlog database\<close>

subsection \<open>Evaluation and frame lemmas\<close>

lemmas sql_defs = empty_db_def default_row_def insert_backlog_item_def next_rowid_def
  constraint_error_def priority_check_def item_type_check_def status_check_def
  estimated_effort_check_def sql_in_def check_passes_def update_backlog_item_def find_item_def
  after_update_triggers_def trg_backlog_updated_def trg_log_status_change_def
  trg_log_priority_change_def trg_set_completed_at_def insert_backlog_event_def Let_def

lemma ex_db_run:
  "run [(1, Insert None (default_row 1 ''e1'' ''Fix login bug''))] empty_db = Inr ex_db"
  by (simp add: sql_defs ex_db_def ex_item_def)

lemma ex_find: "find_item 1 ex_db = Some ex_item"
  by (simp add: find_item_def ex_db_def ex_item_def)

lemma status_assign: "\<not> is_Set_status c \<Longrightarrow> status (assign c r) = status r"
  by (cases c) simp_all

lemma status_fold_assign:
  "\<not> list_ex is_Set_status sets \<Longrightarrow> status (fold assign sets r) = status r"
  by (induction sets arbitrary: r) (simp_all add: status_assign)

lemma priority_assign: "\<not> is_Set_priority c \<Longrightarrow> priority (assign c r) = priority r"
  by (cases c) simp_all

lemma priority_fold_assign:
  "\<not> list_ex is_Set_priority sets \<Longrightarrow> priority (fold assign sets r) = priority r"
  by (induction sets arbitrary: r) (simp_all add: priority_assign)

lemma completed_at_assign:
  "\<not> is_Set_completed_at c \<Longrightarrow> completed_at (assign c r) = completed_at r"
  by (cases c) simp_all

lemma completed_at_fold_assign:
  "\<not> list_ex is_Set_completed_at sets \<Longrightarrow> completed_at (fold assign sets r) = completed_at r"
  by (induction sets arbitrary: r) (simp_all add: completed_at_assign)

lemma id_bi_assign: "\<not> is_Set_id c \<Longrightarrow> id_bi (assign c r) = id_bi r"
  by (cases c) simp_all

lemma id_bi_fold_assign:
  "\<not> list_ex is_Set_id sets \<Longrightarrow> id_bi (fold assign sets r) = id_bi r"
  by (induction sets arbitrary: r) (simp_all add: id_bi_assign)

lemma constraint_error_None_id:
  "constraint_error others r = None \<Longrightarrow> id_bi r \<notin> id_bi ` set others"
  by (auto simp: constraint_error_def split: if_splits)

lemma backlog_items_insert_backlog_event [simp]:
  "backlog_items (insert_backlog_event now iid ext ty data actor d) = backlog_items d"
  by (simp add: insert_backlog_event_def Let_def)

lemma find_item_insert_backlog_event [simp]:
  "find_item j (insert_backlog_event now iid ext ty data actor d) = find_item j d"
  by (simp add: find_item_def)

lemma backlog_items_trg_log_status_change [simp]:
  "backlog_items (trg_log_status_change now sets old new d) = backlog_items d"
  by (simp add: trg_log_status_change_def)

lemma backlog_items_trg_log_priority_change [simp]:
  "backlog_items (trg_log_priority_change now sets old new d) = backlog_items d"
  by (simp add: trg_log_priority_change_def)

lemma backlog_items_trg_backlog_updated:
  "backlog_items (trg_backlog_updated now new d) =
     map (\<lambda>r. if id_bi r = id_bi new then r\<lparr>updated_at := Some now\<rparr> else r) (backlog_items d)"
  by (simp add: trg_backlog_updated_def)

lemma backlog_items_trg_set_completed_at:
  "backlog_items (trg_set_completed_at now sets old new d) =
     (if list_ex is_Set_status sets \<and> status new = ''done'' \<and> status old \<noteq> ''done''
      then map (\<lambda>r. if id_bi r = id_bi new
                    then r\<lparr>updated_at := Some now, completed_at := Some now\<rparr> else r) (backlog_items d)
      else backlog_items d)"
  by (simp add: trg_set_completed_at_def trg_backlog_updated_def comp_def if_distrib cong: if_cong)

lemma update_backlog_item_Inr:
  assumes "find_item k d = Some old" and "update_backlog_item now k sets d = Inr d'"
  shows "constraint_error (filter (\<lambda>r. id_bi r \<noteq> k) (backlog_items d)) (fold assign sets old) = None"
    and "d' = after_update_triggers now sets old (fold assign sets old)
               (d\<lparr>backlog_items :=
                   map (\<lambda>r. if id_bi r = k then fold assign sets old else r) (backlog_items d)\<rparr>)"
  using assms by (simp_all add: update_backlog_item_def Let_def split: option.splits)

lemma update_backlog_item_rows:
  assumes "find_item k d = Some old" and "update_backlog_item now k sets d = Inr d'"
  shows "backlog_items d' =
           map (\<lambda>r. if id_bi r = k then stored_row now sets old else r) (backlog_items d)"
proof -
  let ?new = "fold assign sets old"
  note ce = update_backlog_item_Inr(1)[OF assms]
  have other: "id_bi r \<noteq> id_bi ?new" if "r \<in> set (backlog_items d)" "id_bi r \<noteq> k" for r
  proof
    assume "id_bi r = id_bi ?new"
    with that have "id_bi ?new \<in> id_bi ` set (filter (\<lambda>r. id_bi r \<noteq> k) (backlog_items d))"
      by (intro image_eqI[of _ _ r]) simp_all
    with constraint_error_None_id[OF ce] show False by simp
  qed
  have enter: "list_ex is_Set_status sets" if "status ?new = ''done''" "status old \<noteq> ''done''"
    using that status_fold_assign[of sets old] by auto
  show ?thesis
    unfolding update_backlog_item_Inr(2)[OF assms] after_update_triggers_def
    using other enter
    by (simp add: backlog_items_trg_set_completed_at backlog_items_trg_backlog_updated
          stored_row_def Let_def)
qed


lemma backlog_events_trg_backlog_updated [simp]:
  "backlog_events (trg_backlog_updated now new d) = backlog_events d"
  by (simp add: trg_backlog_updated_def)

lemma backlog_events_trg_set_completed_at [simp]:
  "backlog_events (trg_set_completed_at now sets old new d) = backlog_events d"
  by (simp add: trg_set_completed_at_def trg_backlog_updated_def)

lemma backlog_events_trg_log_status_change:
  "\<exists>es. backlog_events (trg_log_status_change now sets old new d) = backlog_events d @ es \<and>
        map ev_fact es = (if list_ex is_Set_status sets then status_facts old new else [])"
  by (simp add: trg_log_status_change_def insert_backlog_event_def Let_def status_facts_def
      ev_fact_def)

lemma backlog_events_trg_log_priority_change:
  "\<exists>es. backlog_events (trg_log_priority_change now sets old new d) = backlog_events d @ es \<and>
        map ev_fact es = (if list_ex is_Set_priority sets then priority_facts old new else [])"
  by (simp add: trg_log_priority_change_def insert_backlog_event_def Let_def priority_facts_def
      ev_fact_def)

lemma status_facts_fold_assign:
  "(if list_ex is_Set_status sets then status_facts old (fold assign sets old) else [])
     = status_facts old (fold assign sets old)"
  by (simp add: status_facts_def status_fold_assign)

lemma priority_facts_fold_assign:
  "(if list_ex is_Set_priority sets then priority_facts old (fold assign sets old) else [])
     = priority_facts old (fold assign sets old)"
  by (simp add: priority_facts_def priority_fold_assign)

lemma update_backlog_item_events:
  assumes "find_item k d = Some old" and "update_backlog_item now k sets d = Inr d'"
  shows "\<exists>es. backlog_events d' = backlog_events d @ es \<and>
           map ev_fact es = status_facts old (fold assign sets old) @
                            priority_facts old (fold assign sets old)"
proof -
  let ?new = "fold assign sets old"
  let ?d1 = "d\<lparr>backlog_items := map (\<lambda>r. if id_bi r = k then ?new else r) (backlog_items d)\<rparr>"
  let ?d2 = "trg_backlog_updated now ?new ?d1"
  let ?d3 = "trg_log_status_change now sets old ?new ?d2"
  let ?d4 = "trg_log_priority_change now sets old ?new ?d3"
  obtain es1 where es1: "backlog_events ?d3 = backlog_events ?d2 @ es1"
      "map ev_fact es1 = status_facts old ?new"
    using backlog_events_trg_log_status_change[of now sets old ?new ?d2]
    unfolding status_facts_fold_assign by blast
  obtain es2 where es2: "backlog_events ?d4 = backlog_events ?d3 @ es2"
      "map ev_fact es2 = priority_facts old ?new"
    using backlog_events_trg_log_priority_change[of now sets old ?new ?d3]
    unfolding priority_facts_fold_assign by blast
  have "backlog_events d' = backlog_events ?d4"
    unfolding update_backlog_item_Inr(2)[OF assms] after_update_triggers_def by simp
  also have "\<dots> = backlog_events d @ (es1 @ es2)"
    using es1(1) es2(1) by simp
  finally show ?thesis using es1(2) es2(2) by (intro exI[of _ "es1 @ es2"]) simp
qed

lemma clarifications_after_update_triggers [simp]:
  "clarifications (after_update_triggers now sets old new d) = clarifications d"
  by (simp add: after_update_triggers_def trg_set_completed_at_def trg_log_priority_change_def
      trg_log_status_change_def trg_backlog_updated_def insert_backlog_event_def Let_def)

lemma update_backlog_item_clarifications:
  "update_backlog_item now k sets d = Inr d' \<Longrightarrow> clarifications d' = clarifications d"
  by (auto simp: update_backlog_item_def Let_def split: option.splits)


lemma find_map_replace:
  assumes "find (\<lambda>r. id_bi r = k) rs = Some old"
    and "\<And>r. r \<in> set rs \<Longrightarrow> id_bi r \<noteq> k \<Longrightarrow> id_bi r \<noteq> id_bi new"
  shows "find (\<lambda>r. id_bi r = id_bi new) (map (\<lambda>r. if id_bi r = k then new else r) rs) = Some new"
  using assms by (induction rs) (auto split: if_splits)

lemma id_bi_stored_row [simp]: "id_bi (stored_row now sets old) = id_bi (fold assign sets old)"
  by (simp add: stored_row_def Let_def)

lemma status_stored_row [simp]: "status (stored_row now sets old) = status (fold assign sets old)"
  by (simp add: stored_row_def Let_def)

lemma priority_stored_row [simp]:
  "priority (stored_row now sets old) = priority (fold assign sets old)"
  by (simp add: stored_row_def Let_def)

lemma external_id_stored_row [simp]:
  "external_id (stored_row now sets old) = external_id (fold assign sets old)"
  by (simp add: stored_row_def Let_def)

lemma updated_at_stored_row [simp]: "updated_at (stored_row now sets old) = Some now"
  by (simp add: stored_row_def Let_def)

lemma completed_at_stored_row:
  "completed_at (stored_row now sets old) =
     (if status (fold assign sets old) = ''done'' \<and> status old \<noteq> ''done'' then Some now
      else completed_at (fold assign sets old))"
  by (simp add: stored_row_def Let_def)

lemma update_backlog_item_other_ids:
  assumes "find_item k d = Some old" and "update_backlog_item now k sets d = Inr d'"
    and "r \<in> set (backlog_items d)" and "id_bi r \<noteq> k"
  shows "id_bi r \<noteq> id_bi (fold assign sets old)"
proof
  assume "id_bi r = id_bi (fold assign sets old)"
  with assms(3,4) have "id_bi (fold assign sets old)
      \<in> id_bi ` set (filter (\<lambda>r. id_bi r \<noteq> k) (backlog_items d))"
    by (intro image_eqI[of _ _ r]) simp_all
  with constraint_error_None_id[OF update_backlog_item_Inr(1)[OF assms(1,2)]] show False by simp
qed

lemma update_backlog_item_find:
  assumes "find_item k d = Some old" and "update_backlog_item now k sets d = Inr d'"
  shows "find_item (id_bi (fold assign sets old)) d' = Some (stored_row now sets old)"
  unfolding find_item_def update_backlog_item_rows[OF assms]
  using find_map_replace[of k "backlog_items d" old "stored_row now sets old"] assms(1)
    update_backlog_item_other_ids[OF assms]
  by (simp add: find_item_def)

lemma trg_backlog_updated_nth:
  assumes "i < length (backlog_items d)"
  shows "backlog_items (trg_backlog_updated now new d) ! i =
           (if id_bi (backlog_items d ! i) = id_bi new
            then (backlog_items d ! i)\<lparr>updated_at := Some now\<rparr> else backlog_items d ! i)"
  using assms by (simp add: trg_backlog_updated_def)

subsection \<open>The refresh of \<open>updated_at\<close>\<close>

text \<open>
  Claim C10. Every \<open>UPDATE\<close> applied to a row of \<open>backlog_items\<close> leaves that row with
  \<open>updated_at\<close> equal to the current timestamp; and the trigger that does it,
  \<open>trg_backlog_updated\<close>, changes no other table, no other row (a row whose key is not
  \<open>NEW.id\<close> stays as it was) and, in the row it touches, no column but \<open>updated_at\<close>
  (putting the old \<open>updated_at\<close> back gives the old row).
\<close>

theorem trg_backlog_updated_refreshes_updated_at_only:
  assumes "find_item k d = Some old" and "update_backlog_item now k sets d = Inr d'"
  shows "(\<exists>r. find_item (id_bi (fold assign sets old)) d' = Some r \<and> updated_at r = Some now) \<and>
         backlog_events (trg_backlog_updated now new d0) = backlog_events d0 \<and>
         clarifications (trg_backlog_updated now new d0) = clarifications d0 \<and>
         length (backlog_items (trg_backlog_updated now new d0)) = length (backlog_items d0) \<and>
         (\<forall>i < length (backlog_items d0).
            (backlog_items (trg_backlog_updated now new d0) ! i)
                \<lparr>updated_at := updated_at (backlog_items d0 ! i)\<rparr> = backlog_items d0 ! i \<and>
            (id_bi (backlog_items d0 ! i) = id_bi new \<longrightarrow>
               updated_at (backlog_items (trg_backlog_updated now new d0) ! i) = Some now) \<and>
            (id_bi (backlog_items d0 ! i) \<noteq> id_bi new \<longrightarrow>
               backlog_items (trg_backlog_updated now new d0) ! i = backlog_items d0 ! i))"
proof -
  have "\<exists>r. find_item (id_bi (fold assign sets old)) d' = Some r \<and> updated_at r = Some now"
    using update_backlog_item_find[OF assms] by simp
  moreover have "backlog_events (trg_backlog_updated now new d0) = backlog_events d0"
    and "clarifications (trg_backlog_updated now new d0) = clarifications d0"
    and "length (backlog_items (trg_backlog_updated now new d0)) = length (backlog_items d0)"
    by (simp_all add: trg_backlog_updated_def)
  moreover have "\<forall>i < length (backlog_items d0).
            (backlog_items (trg_backlog_updated now new d0) ! i)
                \<lparr>updated_at := updated_at (backlog_items d0 ! i)\<rparr> = backlog_items d0 ! i \<and>
            (id_bi (backlog_items d0 ! i) = id_bi new \<longrightarrow>
               updated_at (backlog_items (trg_backlog_updated now new d0) ! i) = Some now) \<and>
            (id_bi (backlog_items d0 ! i) \<noteq> id_bi new \<longrightarrow>
               backlog_items (trg_backlog_updated now new d0) ! i = backlog_items d0 ! i)"
    by (simp add: trg_backlog_updated_nth)
  ultimately show ?thesis by blast
qed


theorem trg_backlog_updated_refreshes_updated_at_only_witness:
  "find_item 1 ex_db = Some ex_item \<and>
   (\<exists>d'. update_backlog_item 9 1 [Set_title ''Fix the login bug''] ex_db = Inr d' \<and>
      (\<exists>r. find_item 1 d' = Some r \<and> updated_at r = Some 9))"
proof -
  have f: "find_item 1 ex_db = Some ex_item"
    by (simp add: find_item_def ex_db_def ex_item_def)
  obtain d' where u: "update_backlog_item 9 1 [Set_title ''Fix the login bug''] ex_db = Inr d'"
    by (simp add: sql_defs ex_db_def ex_item_def)
  have "\<exists>r. find_item (id_bi (fold assign [Set_title ''Fix the login bug''] ex_item)) d' = Some r
           \<and> updated_at r = Some 9"
    using trg_backlog_updated_refreshes_updated_at_only[OF f u] by blast
  then have "\<exists>r. find_item 1 d' = Some r \<and> updated_at r = Some 9"
    by (simp add: ex_item_def)
  with f u show ?thesis by blast
qed

subsection \<open>Events written by a change of status\<close>

lemma count_events_append:
  assumes "backlog_events d' = backlog_events d @ es"
  shows "count_events ty d' = count_events ty d + length (filter (\<lambda>f. fst (snd f) = ty) (map ev_fact es))"
  using assms by (simp add: count_events_def filter_map comp_def ev_fact_def)

lemma status_changed_facts_append:
  assumes "backlog_events d' = backlog_events d @ es"
    and "map ev_fact es = status_facts old new @ priority_facts old new"
  shows "map ev_fact (filter (\<lambda>e. event_type e = ''status_changed'') (backlog_events d')) =
         map ev_fact (filter (\<lambda>e. event_type e = ''status_changed'') (backlog_events d)) @
         status_facts old new"
proof -
  have "map ev_fact (filter (\<lambda>e. event_type e = ''status_changed'') es)
      = filter (\<lambda>f. fst (snd f) = ''status_changed'') (map ev_fact es)"
    by (simp add: filter_map comp_def ev_fact_def)
  also have "\<dots> = status_facts old new"
    unfolding assms(2) by (simp add: status_facts_def priority_facts_def)
  finally show ?thesis using assms(1) by simp
qed

text \<open>
  Claim C4, as the schema has it. An \<open>UPDATE\<close> of a row that changes its status writes
  exactly one \<open>status_changed\<close> event, which carries the item's key and the old and the
  new status; an \<open>UPDATE\<close> that leaves the status as it was writes none, so of two
  successive updates to \<open>done\<close> only the first writes one. No \<open>UPDATE\<close> writes an event
  of type \<open>completed\<close>: the schema has no trigger that does.
\<close>

theorem status_change_writes_one_status_changed_event:
  assumes "find_item k d = Some old" and "update_backlog_item now k sets d = Inr d'"
  shows "count_events ''status_changed'' d' =
           count_events ''status_changed'' d +
           (if status (fold assign sets old) \<noteq> status old then 1 else 0) \<and>
         map ev_fact (filter (\<lambda>e. event_type e = ''status_changed'') (backlog_events d')) =
           map ev_fact (filter (\<lambda>e. event_type e = ''status_changed'') (backlog_events d)) @
           status_facts old (fold assign sets old) \<and>
         count_events ''completed'' d' = count_events ''completed'' d"
proof -
  obtain es where es: "backlog_events d' = backlog_events d @ es"
      "map ev_fact es = status_facts old (fold assign sets old) @
                        priority_facts old (fold assign sets old)"
    using update_backlog_item_events[OF assms] by blast
  have "count_events ''status_changed'' d' =
           count_events ''status_changed'' d +
           (if status (fold assign sets old) \<noteq> status old then 1 else 0)"
    unfolding count_events_append[OF es(1)] es(2)
    by (simp add: status_facts_def priority_facts_def)
  moreover have "count_events ''completed'' d' = count_events ''completed'' d"
    unfolding count_events_append[OF es(1)] es(2)
    by (simp add: status_facts_def priority_facts_def)
  ultimately show ?thesis using status_changed_facts_append[OF es] by simp
qed

theorem status_change_writes_one_status_changed_event_witness:
  "find_item 1 ex_db = Some ex_item \<and>
   (\<exists>d1 d2. update_backlog_item 10 1 [Set_status ''done''] ex_db = Inr d1 \<and>
      update_backlog_item 10 1 [Set_status ''done''] d1 = Inr d2 \<and>
      count_events ''status_changed'' d1 = 1 \<and> count_events ''status_changed'' d2 = 1)"
proof -
  have f: "find_item 1 ex_db = Some ex_item" by (rule ex_find)
  obtain d1 where u1: "update_backlog_item 10 1 [Set_status ''done''] ex_db = Inr d1"
    by (simp add: sql_defs ex_db_def ex_item_def)
  have c1: "count_events ''status_changed'' d1 = 1"
    using status_change_writes_one_status_changed_event[OF f u1]
    by (simp add: ex_item_def ex_db_def default_row_def count_events_def empty_db_def)
  have f1: "find_item 1 d1 = Some (stored_row 10 [Set_status ''done''] ex_item)"
    using update_backlog_item_find[OF f u1] by (simp add: ex_item_def)
  obtain d2 where u2: "update_backlog_item 10 1 [Set_status ''done''] d1 = Inr d2"
    using u1 by (auto simp add: sql_defs ex_db_def ex_item_def)
  have c2: "count_events ''status_changed'' d2 = 1"
    using status_change_writes_one_status_changed_event[OF f1 u2] c1
    by simp
  show ?thesis using f u1 u2 c1 c2 by blast
qed

text \<open>
  Claim C4 as stated fails: the first change of an item to \<open>done\<close> leaves one
  \<open>status_changed\<close> event in the log and no \<open>completed\<close> event.
\<close>

theorem status_change_writes_completed_event_counterexample:
  "(case run [(1, Insert None (default_row 1 ''e1'' ''Fix login bug'')),
              (10, Update 1 [Set_status ''done''])] empty_db of
      Inl e \<Rightarrow> False
    | Inr d \<Rightarrow> map_option status (find_item 1 d) = Some ''done'' \<and>
               map event_type (backlog_events d) = [''status_changed''] \<and>
               count_events ''completed'' d = 0)"
  by (simp add: sql_defs count_events_def)


subsection \<open>The assignment of \<open>completed_at\<close>\<close>

lemma find_item_in_set: "find_item k d = Some r \<Longrightarrow> r \<in> set (backlog_items d) \<and> id_bi r = k"
  unfolding find_item_def by (auto simp: find_Some_iff)

text \<open>
  Claim C3, as the schema has it. An \<open>UPDATE\<close> that takes a row from a status other than
  \<open>done\<close> to \<open>done\<close> leaves its \<open>completed_at\<close> at the current timestamp, on every such
  entry; an \<open>UPDATE\<close> that does not enter \<open>done\<close> and does not assign \<open>completed_at\<close>
  itself keeps the stored value, so a repeated "mark done" does not assign it again; and
  "status \<open>done\<close> implies \<open>completed_at\<close> set" is kept by every \<open>UPDATE\<close> that does not
  assign \<open>completed_at\<close> itself.
\<close>

theorem completed_at_set_on_each_entry_into_done:
  assumes "find_item k d = Some old" and "update_backlog_item now k sets d = Inr d'"
  shows "(status old \<noteq> ''done'' \<and> status (fold assign sets old) = ''done'' \<longrightarrow>
            map_option completed_at (find_item (id_bi (fold assign sets old)) d') = Some (Some now)) \<and>
         (\<not> list_ex is_Set_completed_at sets \<and>
          \<not> (status old \<noteq> ''done'' \<and> status (fold assign sets old) = ''done'') \<longrightarrow>
            map_option completed_at (find_item (id_bi (fold assign sets old)) d') =
              Some (completed_at old)) \<and>
         (\<not> list_ex is_Set_completed_at sets \<and> done_has_completed_at d \<longrightarrow>
            done_has_completed_at d')"
proof -
  note found = update_backlog_item_find[OF assms]
  have old_in: "old \<in> set (backlog_items d)"
    using find_item_in_set[OF assms(1)] by simp
  have inv: "done_has_completed_at d'"
    if no: "\<not> list_ex is_Set_completed_at sets" and ok: "done_has_completed_at d"
  proof -
    have "status (stored_row now sets old) = ''done'' \<longrightarrow>
            completed_at (stored_row now sets old) \<noteq> None"
      using ok old_in completed_at_fold_assign[OF no, of old]
      by (auto simp: completed_at_stored_row done_has_completed_at_def)
    then show ?thesis
      using ok unfolding done_has_completed_at_def update_backlog_item_rows[OF assms]
      by auto
  qed
  show ?thesis
    using found inv completed_at_fold_assign[of sets old]
    by (simp add: completed_at_stored_row)
qed

theorem completed_at_set_on_each_entry_into_done_witness:
  "find_item 1 ex_db = Some ex_item \<and> done_has_completed_at ex_db \<and>
   (\<exists>d1 d2. update_backlog_item 10 1 [Set_status ''done''] ex_db = Inr d1 \<and>
      update_backlog_item 20 1 [Set_status ''done''] d1 = Inr d2 \<and>
      map_option completed_at (find_item 1 d1) = Some (Some 10) \<and>
      map_option completed_at (find_item 1 d2) = Some (Some 10) \<and>
      done_has_completed_at d2)"
proof -
  have f: "find_item 1 ex_db = Some ex_item" by (rule ex_find)
  have ok: "done_has_completed_at ex_db"
    by (simp add: done_has_completed_at_def ex_db_def ex_item_def default_row_def empty_db_def)
  obtain d1 where u1: "update_backlog_item 10 1 [Set_status ''done''] ex_db = Inr d1"
    by (simp add: sql_defs ex_db_def ex_item_def)
  note t1 = completed_at_set_on_each_entry_into_done[OF f u1]
  have c1: "map_option completed_at (find_item 1 d1) = Some (Some 10)"
    using t1 by (simp add: ex_item_def default_row_def)
  have ok1: "done_has_completed_at d1" using t1 ok by simp
  have f1: "find_item 1 d1 = Some (stored_row 10 [Set_status ''done''] ex_item)"
    using update_backlog_item_find[OF f u1] by (simp add: ex_item_def)
  obtain d2 where u2: "update_backlog_item 20 1 [Set_status ''done''] d1 = Inr d2"
    using u1 by (auto simp add: sql_defs ex_db_def ex_item_def)
  note t2 = completed_at_set_on_each_entry_into_done[OF f1 u2]
  have c2: "map_option completed_at (find_item 1 d2) = Some (Some 10)"
    using t2 by (simp add: ex_item_def default_row_def completed_at_stored_row)
  have ok2: "done_has_completed_at d2" using t2 ok1 by simp
  show ?thesis using f ok u1 u2 c1 c2 ok2 by blast
qed


text \<open>
  Claim C3 as stated fails twice. An item that leaves \<open>done\<close> and enters it again has
  \<open>completed_at\<close> assigned a second time (10, then 30). And a row inserted with status
  \<open>done\<close> has no \<open>completed_at\<close>: the trigger is \<open>AFTER UPDATE\<close> only.
\<close>

theorem completed_at_set_exactly_once_counterexample:
  "(case run [(1, Insert None (default_row 1 ''e1'' ''Fix login bug'')),
              (10, Update 1 [Set_status ''done''])] empty_db of
      Inl e \<Rightarrow> False
    | Inr d \<Rightarrow> map_option completed_at (find_item 1 d) = Some (Some 10)) \<and>
   (case run [(1, Insert None (default_row 1 ''e1'' ''Fix login bug'')),
              (10, Update 1 [Set_status ''done'']),
              (20, Update 1 [Set_status ''open'']),
              (30, Update 1 [Set_status ''done''])] empty_db of
      Inl e \<Rightarrow> False
    | Inr d \<Rightarrow> map_option completed_at (find_item 1 d) = Some (Some 30)) \<and>
   (case run [(1, Insert None ((default_row 1 ''e1'' ''Fix login bug'')\<lparr>status := ''done''\<rparr>))]
           empty_db of
      Inl e \<Rightarrow> False
    | Inr d \<Rightarrow> map_option (\<lambda>r. (status r, completed_at r)) (find_item 1 d) =
                 Some (''done'', None))"
  by (simp add: sql_defs)


subsection \<open>The \<open>CHECK\<close> on the status\<close>

lemma spec_item_transition_status_check:
  "spec_item_transition s s' \<Longrightarrow> status_check s'"
  by (auto simp: spec_item_transition_def status_check_def)

lemma constraint_error_status:
  assumes "constraint_error others old = None"
  shows "constraint_error others (old\<lparr>status := s\<rparr>) =
           (if status_check s then None else Some (Check_failed ''status''))"
  using assms by (simp add: constraint_error_def split: if_splits)

subsection \<open>Replay of the event log\<close>

lemma replay_new_events:
  assumes "map ev_fact es = status_facts old new @ priority_facts old new"
  shows "fold replay_event es (status old, priority old) = (status new, priority new)"
    and "\<forall>e \<in> set es. item_id_ev e = id_bi new"
  using assms
  by (auto simp: status_facts_def priority_facts_def ev_fact_def map_eq_Cons_conv
      split: if_splits)

lemma find_map_other:
  assumes "id_bi x \<noteq> k" and "k' \<noteq> k"
  shows "find (\<lambda>r. id_bi r = k) (map (\<lambda>r. if id_bi r = k' then x else r) rs)
           = find (\<lambda>r. id_bi r = k) rs"
  using assms by (induction rs) auto

lemma find_append_Some:
  "find P xs = Some x \<Longrightarrow> find P (xs @ ys) = Some x"
  by (induction xs) (auto split: if_splits)

lemma insert_backlog_item_replay:
  assumes "insert_backlog_item key r d = Inr d1" and "find_item k d = Some r0"
  shows "find_item k d1 = Some r0" and "events_of k d1 = events_of k d"
  using assms
  by (auto simp: insert_backlog_item_def Let_def find_item_def events_of_def find_append_Some
      split: option.splits)

lemma update_backlog_item_replay:
  assumes u: "update_backlog_item now k' sets d = Inr d1" and noid: "\<not> list_ex is_Set_id sets"
    and f: "find_item k d = Some r0"
    and rp: "replay (events_of k d) init = (status r0, priority r0)"
  shows "\<exists>r1. find_item k d1 = Some r1 \<and>
           replay (events_of k d1) init = (status r1, priority r1)"
proof (cases "find_item k' d")
  case None
  then have "d1 = d" using u by (simp add: update_backlog_item_def)
  then show ?thesis using f rp by simp
next
  case (Some old)
  let ?new = "fold assign sets old"
  have idold: "id_bi old = k'" using find_item_in_set[OF Some] by simp
  have idnew: "id_bi ?new = k'" using id_bi_fold_assign[OF noid, of old] idold by simp
  obtain es where es: "backlog_events d1 = backlog_events d @ es"
      "map ev_fact es = status_facts old ?new @ priority_facts old ?new"
    using update_backlog_item_events[OF Some u] by blast
  note rows = update_backlog_item_rows[OF Some u]
  show ?thesis
  proof (cases "k' = k")
    case True
    then have old: "old = r0" using Some f by simp
    have f1: "find_item k d1 = Some (stored_row now sets old)"
      using update_backlog_item_find[OF Some u] idnew True by simp
    have "events_of k d1 = events_of k d @ es"
      using es(1) replay_new_events(2)[OF es(2)] idnew True
      by (simp add: events_of_def)
    then have "replay (events_of k d1) init = fold replay_event es (status old, priority old)"
      using rp old by (simp add: replay_def)
    then show ?thesis using f1 replay_new_events(1)[OF es(2)] by simp
  next
    case False
    have "find_item k d1 = find_item k d"
      unfolding find_item_def rows
      using find_map_other[of "stored_row now sets old" k k'] idnew False by simp
    moreover have "events_of k d1 = events_of k d"
      using es(1) replay_new_events(2)[OF es(2)] idnew False
      by (simp add: events_of_def)
    ultimately show ?thesis using f rp by simp
  qed
qed

lemma exec_replay:
  assumes "exec st d = Inr d1" and "\<not> assigns_id st" and "find_item k d = Some r0"
    and "replay (events_of k d) init = (status r0, priority r0)"
  shows "\<exists>r1. find_item k d1 = Some r1 \<and>
           replay (events_of k d1) init = (status r1, priority r1)"
proof (cases st)
  case (Pair now s)
  show ?thesis
  proof (cases s)
    case (Insert key r)
    then show ?thesis
      using assms Pair insert_backlog_item_replay[of key r d d1 k r0] by simp
  next
    case (Update k' sets)
    then show ?thesis
      using assms Pair update_backlog_item_replay[of now k' sets d d1 k r0 init] by simp
  qed
qed

text \<open>
  Claim C1, as the schema has it. The triggers log the changes of two columns. Over any
  run of statements that succeeds and assigns no key, replaying an item's events in
  sequence order, from the status and the priority the item had when its log was empty,
  gives the status and the priority of its stored row. The replay is a function of the
  event sequence alone, so a second replay from a cold start gives the same pair.
\<close>

theorem replay_reproduces_status_and_priority:
  assumes "run ops d = Inr d'" and "\<not> list_ex assigns_id ops"
    and "find_item k d = Some r0"
    and "replay (events_of k d) init = (status r0, priority r0)"
  shows "\<exists>r. find_item k d' = Some r \<and>
           replay (events_of k d') init = (status r, priority r)"
  using assms
proof (induction ops arbitrary: d r0)
  case Nil
  then show ?case by simp
next
  case (Cons st ops)
  from Cons.prems(1) obtain d1 where d1: "exec st d = Inr d1" "run ops d1 = Inr d'"
    by (auto split: sum.splits)
  from Cons.prems(2) have no: "\<not> assigns_id st" "\<not> list_ex assigns_id ops" by simp_all
  obtain r1 where r1: "find_item k d1 = Some r1"
      "replay (events_of k d1) init = (status r1, priority r1)"
    using exec_replay[OF d1(1) no(1) Cons.prems(3,4)] by blast
  show ?case using Cons.IH[OF d1(2) no(2) r1] .
qed

theorem replay_reproduces_status_and_priority_witness:
  "\<not> list_ex assigns_id [(10, Update 1 [Set_status ''in_progress'', Set_title ''Fix it'']),
        (20, Update 1 [Set_priority ''P0'']), (30, Update 1 [Set_status ''done''])] \<and>
   find_item 1 ex_db = Some ex_item \<and>
   replay (events_of 1 ex_db) (''open'', ''P2'') = (status ex_item, priority ex_item) \<and>
   (\<exists>d'. run [(10, Update 1 [Set_status ''in_progress'', Set_title ''Fix it'']),
        (20, Update 1 [Set_priority ''P0'']), (30, Update 1 [Set_status ''done''])] ex_db = Inr d' \<and>
      replay (events_of 1 d') (''open'', ''P2'') = (''done'', ''P0'') \<and>
      map_option (\<lambda>r. (status r, priority r)) (find_item 1 d') = Some (''done'', ''P0''))"
proof -
  let ?ops = "[(10, Update 1 [Set_status ''in_progress'', Set_title ''Fix it'']),
        (20, Update 1 [Set_priority ''P0'']), (30::nat, Update 1 [Set_status ''done''])]"
  have no: "\<not> list_ex assigns_id ?ops" by simp
  have f: "find_item 1 ex_db = Some ex_item" by (rule ex_find)
  have rp: "replay (events_of 1 ex_db) (''open'', ''P2'') = (status ex_item, priority ex_item)"
    by (simp add: replay_def events_of_def ex_db_def ex_item_def default_row_def empty_db_def)
  have r: "\<exists>d'. run ?ops ex_db = Inr d' \<and>
              map_option (\<lambda>r. (status r, priority r)) (find_item 1 d') = Some (''done'', ''P0'')"
    by (simp add: sql_defs ex_db_def ex_item_def)
  then obtain d' where d': "run ?ops ex_db = Inr d'"
     "map_option (\<lambda>r. (status r, priority r)) (find_item 1 d') = Some (''done'', ''P0'')"
    by blast
  have "replay (events_of 1 d') (''open'', ''P2'') = (''done'', ''P0'')"
    using replay_reproduces_status_and_priority[OF d'(1) no f rp] d'(2) by auto
  with no f rp d' show ?thesis by blast
qed

text \<open>
  Claim C1 as stated fails: creation and a change of title write no event, so two
  databases with the same (empty) event sequence for item 1 hold two different rows for
  it, and no replay of that sequence can reproduce both.
\<close>

theorem replay_reproduces_row_counterexample:
  "(case run [(1, Insert None (default_row 1 ''e1'' ''Fix login bug''))] empty_db of
      Inl e \<Rightarrow> False
    | Inr d \<Rightarrow> events_of 1 d = [] \<and> map_option title (find_item 1 d) = Some ''Fix login bug'') \<and>
   (case run [(1, Insert None (default_row 1 ''e1'' ''Fix login bug'')),
              (1, Update 1 [Set_title ''Fix logout bug''])] empty_db of
      Inl e \<Rightarrow> False
    | Inr d \<Rightarrow> events_of 1 d = [] \<and> map_option title (find_item 1 d) = Some ''Fix logout bug'')"
  by (simp add: sql_defs events_of_def)

subsection \<open>The constraints hold in every reachable database\<close>

text \<open>
  Every database that a run of statements reaches from the empty one satisfies the
  constraints of the schema, and then each stored row passes them beside the others: the
  hypothesis under which the changes of status are studied above.
\<close>

lemma constraint_error_None_iff:
  "constraint_error others r = None \<longleftrightarrow>
     checks_ok r \<and> id_bi r \<notin> id_bi ` set others \<and> external_id r \<notin> external_id ` set others"
  by (auto simp: constraint_error_def checks_ok_def)

lemma schema_ok_empty_db: "schema_ok empty_db"
  by (simp add: schema_ok_def empty_db_def)

lemma schema_ok_row:
  assumes "schema_ok d" and "find_item k d = Some old"
  shows "constraint_error (filter (\<lambda>r. id_bi r \<noteq> k) (backlog_items d)) old = None"
proof -
  have o: "old \<in> set (backlog_items d)" "id_bi old = k"
    using find_item_in_set[OF assms(2)] by simp_all
  have "external_id old \<notin> external_id ` set (filter (\<lambda>r. id_bi r \<noteq> k) (backlog_items d))"
  proof
    assume "external_id old \<in> external_id ` set (filter (\<lambda>r. id_bi r \<noteq> k) (backlog_items d))"
    then obtain x where x: "x \<in> set (backlog_items d)" "id_bi x \<noteq> k"
        "external_id x = external_id old"
      by auto
    have "inj_on external_id (set (backlog_items d))"
      using assms(1) by (simp add: schema_ok_def distinct_map)
    then have "x = old" using x(1,3) o(1) by (simp add: inj_on_def)
    with x(2) o(2) show False by simp
  qed
  moreover have "id_bi old \<notin> id_bi ` set (filter (\<lambda>r. id_bi r \<noteq> k) (backlog_items d))"
    using o(2) by auto
  moreover have "checks_ok old" using assms(1) o(1) by (simp add: schema_ok_def)
  ultimately show ?thesis by (simp add: constraint_error_None_iff)
qed

lemma distinct_map_replace:
  assumes "distinct (map id_bi rs)" and "distinct (map g rs)"
    and "g st \<notin> g ` set (filter (\<lambda>r. id_bi r \<noteq> k) rs)"
  shows "distinct (map g (map (\<lambda>r. if id_bi r = k then st else r) rs))"
  using assms
proof (induction rs)
  case Nil
  then show ?case by simp
next
  case (Cons r rs)
  let ?f = "\<lambda>r. if id_bi r = k then st else r"
  show ?case
  proof (cases "id_bi r = k")
    case True
    have "id_bi r \<notin> id_bi ` set rs" using Cons.prems(1) by simp
    then have no: "\<forall>x \<in> set rs. id_bi x \<noteq> k" using True by blast
    then have same: "map ?f rs = rs"
      by (simp add: map_idI)
    have "filter (\<lambda>r. id_bi r \<noteq> k) rs = rs" using no by simp
    then have "g st \<notin> g ` set rs" using Cons.prems(3) True by simp
    then show ?thesis using True same Cons.prems(2) by simp
  next
    case False
    have p1: "distinct (map id_bi rs)" and p2: "distinct (map g rs)"
      using Cons.prems(1,2) by simp_all
    have p3: "g st \<notin> g ` set (filter (\<lambda>r. id_bi r \<noteq> k) rs)"
      using Cons.prems(3) False by simp
    have ih: "distinct (map g (map ?f rs))"
      using Cons.IH[OF p1 p2 p3] .
    have n1: "g r \<noteq> g st" using Cons.prems(3) False by auto
    have n2: "g r \<notin> g ` set rs" using Cons.prems(2) by simp
    have notin: "g r \<notin> set (map g (map ?f rs))"
    proof
      assume "g r \<in> set (map g (map ?f rs))"
      then obtain x where x: "x \<in> set rs" "g (?f x) = g r" by auto
      show False
      proof (cases "id_bi x = k")
        case True
        then show False using x(2) n1 by simp
      next
        case False
        then have "g x = g r" using x(2) by simp
        then show False using n2 x(1) by (metis imageI)
      qed
    qed
    have eq: "map g (map ?f (r # rs)) = g r # map g (map ?f rs)"
      using False by simp
    show ?thesis unfolding eq distinct.simps using notin ih by (rule conjI)
  qed
qed

lemma checks_ok_stored_row:
  "checks_ok (stored_row now sets old) = checks_ok (fold assign sets old)"
  by (simp add: checks_ok_def stored_row_def Let_def)

lemma schema_ok_update:
  assumes ok: "schema_ok d" and u: "update_backlog_item now k sets d = Inr d'"
  shows "schema_ok d'"
proof (cases "find_item k d")
  case None
  then show ?thesis using ok u by (simp add: update_backlog_item_def)
next
  case (Some old)
  let ?st = "stored_row now sets old"
  note ce = update_backlog_item_Inr(1)[OF Some u]
  note rows = update_backlog_item_rows[OF Some u]
  have c: "checks_ok ?st"
    and i: "id_bi ?st \<notin> id_bi ` set (filter (\<lambda>r. id_bi r \<noteq> k) (backlog_items d))"
    and e: "external_id ?st \<notin> external_id ` set (filter (\<lambda>r. id_bi r \<noteq> k) (backlog_items d))"
    using ce by (simp_all add: constraint_error_None_iff checks_ok_stored_row)
  have d1: "distinct (map id_bi (backlog_items d))"
    and d2: "distinct (map external_id (backlog_items d))"
    and ck: "\<forall>r \<in> set (backlog_items d). checks_ok r"
    using ok by (simp_all add: schema_ok_def)
  have "distinct (map id_bi (backlog_items d'))"
    unfolding rows using distinct_map_replace[OF d1 d1 i] .
  moreover have "distinct (map external_id (backlog_items d'))"
    unfolding rows using distinct_map_replace[OF d1 d2 e] .
  moreover have "\<forall>r \<in> set (backlog_items d'). checks_ok r"
  proof
    fix r assume "r \<in> set (backlog_items d')"
    then obtain x where "x \<in> set (backlog_items d)" "r = (if id_bi x = k then ?st else x)"
      unfolding rows by auto
    then show "checks_ok r" using ck c by simp
  qed
  ultimately show ?thesis by (simp add: schema_ok_def)
qed

lemma schema_ok_insert:
  assumes ok: "schema_ok d" and i: "insert_backlog_item key r d = Inr d'"
  shows "schema_ok d'"
proof -
  let ?k = "case key of Some i \<Rightarrow> i
            | None \<Rightarrow> next_rowid (seq_backlog_items d) (map id_bi (backlog_items d))"
  have ce: "constraint_error (backlog_items d) (r\<lparr>id_bi := ?k\<rparr>) = None"
    and d': "backlog_items d' = backlog_items d @ [r\<lparr>id_bi := ?k\<rparr>]"
    using i by (auto simp: insert_backlog_item_def Let_def split: option.splits)
  have n: "checks_ok (r\<lparr>id_bi := ?k\<rparr>)"
    "id_bi (r\<lparr>id_bi := ?k\<rparr>) \<notin> id_bi ` set (backlog_items d)"
    "external_id (r\<lparr>id_bi := ?k\<rparr>) \<notin> external_id ` set (backlog_items d)"
    using ce unfolding constraint_error_None_iff by blast+
  show ?thesis
    using ok n unfolding schema_ok_def d' by simp
qed

lemma schema_ok_run:
  assumes "schema_ok d" and "run sts d = Inr d'"
  shows "schema_ok d'"
  using assms
proof (induction sts arbitrary: d)
  case Nil
  then show ?case by simp
next
  case (Cons st sts)
  from Cons.prems(2) obtain d1 where d1: "exec st d = Inr d1" "run sts d1 = Inr d'"
    by (auto split: sum.splits)
  have "schema_ok d1"
  proof (cases st)
    case (Pair now s)
    show ?thesis
    proof (cases s)
      case (Insert key r)
      then show ?thesis using d1(1) Cons.prems(1) Pair schema_ok_insert[of d key r d1] by simp
    next
      case (Update k sets)
      then show ?thesis
        using d1(1) Cons.prems(1) Pair schema_ok_update[of d now k sets d1] by simp
    qed
  qed
  then show ?case using Cons.IH d1(2) by blast
qed

section \<open>Properties of the view \<open>v_active_by_priority\<close>\<close>

lemma sorted_pairs_nth:
  assumes "sorted (map f xs)" and "i < j" and "j < length xs"
  shows "f (xs ! i) \<le> f (xs ! j)"
  using assms sorted_nth_mono[of "map f xs" i j] by simp

text \<open>
  Claim C7, as the view has it. The view shows exactly the items whose status is neither
  \<open>done\<close> nor \<open>cancelled\<close>, each once, ordered by priority (\<open>P0\<close> first) and, among items
  of equal priority, by \<open>created_at\<close> ascending. This order of the pairs (priority,
  \<open>created_at\<close>) is determined by the snapshot: every arrangement of the candidates that is
  sorted by the two terms shows the same sequence of pairs. The view has no third term:
  the order of items that agree on both is not by external id.
\<close>

theorem v_active_by_priority_order:
  "mset (v_active_by_priority d) = mset (filter is_active (backlog_items d)) \<and>
   sorted (map order_key (v_active_by_priority d)) \<and>
   (\<forall>i j. i < j \<and> j < length (v_active_by_priority d) \<longrightarrow>
      priority_rank (priority (v_active_by_priority d ! i))
        \<le> priority_rank (priority (v_active_by_priority d ! j)) \<and>
      (priority (v_active_by_priority d ! i) = priority (v_active_by_priority d ! j) \<longrightarrow>
         created_at (v_active_by_priority d ! i) \<le> created_at (v_active_by_priority d ! j))) \<and>
   (\<forall>xs. mset xs = mset (filter is_active (backlog_items d)) \<and> sorted (map order_key xs) \<longrightarrow>
      map order_key xs = map order_key (v_active_by_priority d))"
proof -
  let ?v = "v_active_by_priority d"
  have m: "mset ?v = mset (filter is_active (backlog_items d))"
    by (simp add: v_active_by_priority_def)
  have s: "sorted (map order_key ?v)"
    by (simp add: v_active_by_priority_def)
  have p: "\<forall>i j. i < j \<and> j < length ?v \<longrightarrow>
      priority_rank (priority (?v ! i)) \<le> priority_rank (priority (?v ! j)) \<and>
      (priority (?v ! i) = priority (?v ! j) \<longrightarrow> created_at (?v ! i) \<le> created_at (?v ! j))"
  proof (intro allI impI)
    fix i j assume ij: "i < j \<and> j < length ?v"
    have "order_key (?v ! i) \<le> order_key (?v ! j)"
      using sorted_pairs_nth[OF s, of i j] ij by simp
    then show "priority_rank (priority (?v ! i)) \<le> priority_rank (priority (?v ! j)) \<and>
      (priority (?v ! i) = priority (?v ! j) \<longrightarrow> created_at (?v ! i) \<le> created_at (?v ! j))"
      by (auto simp: order_key_def less_eq_prod_def)
  qed
  have u: "\<forall>xs. mset xs = mset (filter is_active (backlog_items d)) \<and> sorted (map order_key xs) \<longrightarrow>
      map order_key xs = map order_key ?v"
  proof (intro allI impI)
    fix xs assume a: "mset xs = mset (filter is_active (backlog_items d)) \<and> sorted (map order_key xs)"
    then have "mset (map order_key xs) = mset (map order_key ?v)"
      using m by simp
    then have "sort (map order_key ?v) = map order_key xs"
      using a by (intro properties_for_sort) simp_all
    moreover have "sort (map order_key ?v) = map order_key ?v"
      using s by (simp add: sort_key_id_if_sorted)
    ultimately show "map order_key xs = map order_key ?v" by simp
  qed
  show ?thesis using m s p u by blast
qed

theorem v_active_by_priority_order_witness:
  "mset ex_view_rows = mset (filter is_active (backlog_items ex_view_db)) \<and>
   sorted (map order_key ex_view_rows) \<and>
   map order_key ex_view_rows = map order_key (v_active_by_priority ex_view_db) \<and>
   (0::nat) < 1 \<and> 1 < length (v_active_by_priority ex_view_db) \<and>
   priority_rank (priority (v_active_by_priority ex_view_db ! 0))
     \<le> priority_rank (priority (v_active_by_priority ex_view_db ! 1))"
proof -
  have m: "mset ex_view_rows = mset (filter is_active (backlog_items ex_view_db))"
    by (simp add: ex_view_rows_def ex_view_db_def is_active_def default_row_def empty_db_def)
  have s: "sorted (map order_key ex_view_rows)"
    by (simp add: ex_view_rows_def order_key_def priority_rank_def default_row_def)
  have l: "(0::nat) < 1 \<and> 1 < length (v_active_by_priority ex_view_db)"
    by (simp add: v_active_by_priority_def ex_view_db_def is_active_def default_row_def
        empty_db_def)
  note t = v_active_by_priority_order[of ex_view_db]
  have e: "map order_key ex_view_rows = map order_key (v_active_by_priority ex_view_db)"
    using t m s by blast
  have r: "priority_rank (priority (v_active_by_priority ex_view_db ! 0))
     \<le> priority_rank (priority (v_active_by_priority ex_view_db ! 1))"
    using t l by blast
  show ?thesis using m s e l r by blast
qed

text \<open>
  Claim C7 as stated fails: two items created in the same second with the same priority
  come out with external id \<open>b\<close> before \<open>a\<close>.
\<close>

theorem v_active_by_priority_external_id_tie_counterexample:
  "(case run [(5, Insert None (default_row 5 ''b'' ''Write report'')),
              (5, Insert None (default_row 5 ''a'' ''Call client''))] empty_db of
      Inl e \<Rightarrow> False
    | Inr d \<Rightarrow> map (\<lambda>r. (external_id r, priority r, created_at r)) (v_active_by_priority d) =
                 [(''b'', ''P2'', Some 5), (''a'', ''P2'', Some 5)])"
  by (simp add: sql_defs v_active_by_priority_def is_active_def order_key_def priority_rank_def)

section \<open>Properties of agent sessions\<close>

lemma transition_terminal: "terminal s \<Longrightarrow> transition s opn = None"
  by (cases opn) (auto simp: terminal_def)

lemma apply_op_terminal:
  "sessions st sid = Some s \<Longrightarrow> terminal (state s) \<Longrightarrow> apply_op now sid opn st = Inl InvalidTransition"
  by (simp add: apply_op_def transition_terminal)

text \<open>
  Claim C8. For a session in \<open>waiting_for_approval\<close>, \<open>resolveApproval\<close> with
  \<open>approved = false\<close> succeeds and leaves the session \<open>failed\<close>; from there \<open>pause\<close> fails
  with \<open>InvalidTransition\<close>, and so does every other operation, as from any terminal
  state (\<open>failed\<close> or \<open>completed\<close>); a failed operation returns no new store, so the state
  stays. \<open>resolveApproval\<close> from any other state fails with \<open>InvalidTransition\<close>. In the
  dashboard, the Deny button is shown for a session in \<open>waiting_for_approval\<close> and posts
  \<open>approved = false\<close> with the reason \<open>Denied by user\<close>, and neither the card nor the
  dialog shows any action for a \<open>failed\<close> or \<open>completed\<close> session.
\<close>

theorem denied_approval_is_terminal:
  assumes "sessions st sid = Some s"
  shows "(state s = waiting_for_approval \<longrightarrow>
            (\<exists>st'. resolveApproval now sid False r st = Inr st' \<and>
               map_option state (sessions st' sid) = Some failed \<and>
               pause now' sid st' = Inl InvalidTransition \<and>
               (\<forall>opn. apply_op now' sid opn st' = Inl InvalidTransition))) \<and>
         (state s \<noteq> waiting_for_approval \<longrightarrow>
            resolveApproval now sid a r st = Inl InvalidTransition) \<and>
         (terminal (state s) \<longrightarrow>
            pause now sid st = Inl InvalidTransition \<and>
            (\<forall>opn. apply_op now sid opn st = Inl InvalidTransition)) \<and>
         modal_actions sid ''failed'' = [] \<and> modal_actions sid ''completed'' = [] \<and>
         session_actions sid ''failed'' = [] \<and> session_actions sid ''completed'' = [] \<and>
         approveSession sid False \<in> set (modal_actions sid ''waiting_for_approval'') \<and>
         reason (approveSession_request sid False) = Some ''Denied by user''"
proof -
  have a: "\<exists>st'. resolveApproval now sid False r st = Inr st' \<and>
               map_option state (sessions st' sid) = Some failed \<and>
               pause now' sid st' = Inl InvalidTransition \<and>
               (\<forall>opn. apply_op now' sid opn st' = Inl InvalidTransition)"
    if w: "state s = waiting_for_approval"
  proof -
    obtain st' where st': "resolveApproval now sid False r st = Inr st'"
      using assms w by (simp add: resolveApproval_def apply_op_def)
    then obtain s' where s': "sessions st' sid = Some s'" "state s' = failed"
      using assms w by (auto simp: resolveApproval_def apply_op_def)
    have t: "terminal (state s')" using s' by (simp add: terminal_def)
    show ?thesis
      using st' s' apply_op_terminal[OF s'(1) t] by (simp add: pause_def)
  qed
  have b: "resolveApproval now sid a r st = Inl InvalidTransition"
    if "state s \<noteq> waiting_for_approval"
    using assms that by (simp add: resolveApproval_def apply_op_def)
  have c: "pause now sid st = Inl InvalidTransition \<and>
            (\<forall>opn. apply_op now sid opn st = Inl InvalidTransition)"
    if "terminal (state s)"
    using apply_op_terminal[OF assms that] by (simp add: pause_def)
  have d: "modal_actions sid ''failed'' = [] \<and> modal_actions sid ''completed'' = [] \<and>
         session_actions sid ''failed'' = [] \<and> session_actions sid ''completed'' = [] \<and>
         approveSession sid False \<in> set (modal_actions sid ''waiting_for_approval'') \<and>
         reason (approveSession_request sid False) = Some ''Denied by user''"
    by (simp add: modal_actions_def session_actions_def approveSession_request_def)
  show ?thesis using a b c d by blast
qed


theorem denied_approval_is_terminal_witness:
  "and_then (and_then (create_session 1 ''s1'' ''proj-x'' ''Refactor auth'' ''general'' empty_store)
      (start 2 ''s1'')) (requestApproval 3 ''s1'' ''destructive rename'') = Inr ex_store \<and>
   sessions ex_store ''s1'' = Some ex_session \<and>
   state ex_session = waiting_for_approval \<and>
   (\<exists>st'. resolveApproval 4 ''s1'' False ''not now'' ex_store = Inr st' \<and>
      map_option state (sessions st' ''s1'') = Some failed \<and>
      pause 5 ''s1'' st' = Inl InvalidTransition)"
proof -
  have run: "and_then (and_then (create_session 1 ''s1'' ''proj-x'' ''Refactor auth'' ''general'' empty_store)
      (start 2 ''s1'')) (requestApproval 3 ''s1'' ''destructive rename'') = Inr ex_store"
    by (simp add: and_then_def create_session_def start_def requestApproval_def apply_op_def
        empty_store_def ex_store_def ex_session_def)
  have s: "sessions ex_store ''s1'' = Some ex_session" by (simp add: ex_store_def)
  have w: "state ex_session = waiting_for_approval" by (simp add: ex_session_def)
  show ?thesis
    using denied_approval_is_terminal[OF s, of 4 "''not now''" 5] run s w by blast
qed

section \<open>Properties of the item engine\<close>

subsection \<open>No operation deletes an item\<close>

lemmas engine_defs = create_item_def update_item_def changeStatus_def changePriority_def
  remove_item_def ask_def answer_clarification_def record_answer_def restore_status_def
  open_clarifications_def pre_clarification_status_def enters_clarification_def
  insert_clarification_def patch_sets_def field_sets_def no_patch_def
  spec_item_transition_def

lemma keeps_items_refl [simp]: "keeps_items d d"
  by (simp add: keeps_items_def)

lemma keeps_items_trans: "keeps_items a b \<Longrightarrow> keeps_items b c \<Longrightarrow> keeps_items a c"
  unfolding keeps_items_def
  by (metis length_take min.absorb2 nat_le_linear take_all take_take)

lemma keeps_items_eq: "item_keys d' = item_keys d \<Longrightarrow> keeps_items d d'"
  by (simp add: keeps_items_def)

lemma item_keys_insert_backlog_event [simp]:
  "item_keys (insert_backlog_event now k ext ty data actor d) = item_keys d"
  by (simp add: item_keys_def)

lemma item_keys_insert_clarification [simp]:
  "item_keys (insert_clarification now k q t d) = item_keys d"
  by (simp add: item_keys_def insert_clarification_def Let_def)

lemma backlog_items_insert_clarification [simp]:
  "backlog_items (insert_clarification now k q t d) = backlog_items d"
  by (simp add: insert_clarification_def Let_def)

lemma find_item_insert_clarification [simp]:
  "find_item j (insert_clarification now k q t d) = find_item j d"
  by (simp add: find_item_def)

lemma insert_backlog_item_keys:
  assumes "insert_backlog_item key r d = Inr d'"
  shows "\<exists>x. item_keys d' = item_keys d @ [x] \<and> fst x \<notin> set (map id_bi (backlog_items d))"
proof -
  let ?k = "case key of Some i \<Rightarrow> i
            | None \<Rightarrow> next_rowid (seq_backlog_items d) (map id_bi (backlog_items d))"
  have ce: "constraint_error (backlog_items d) (r\<lparr>id_bi := ?k\<rparr>) = None"
    and d': "d' = d\<lparr>backlog_items := backlog_items d @ [r\<lparr>id_bi := ?k\<rparr>],
                    seq_backlog_items := max (seq_backlog_items d) ?k\<rparr>"
    using assms by (simp_all add: insert_backlog_item_def Let_def split: option.splits)
  have "?k \<notin> set (map id_bi (backlog_items d))"
    using constraint_error_None_id[OF ce] by simp
  then show ?thesis
    unfolding d' by (intro exI[of _ "(?k, external_id r)"]) (simp add: item_keys_def)
qed

lemma external_id_assign:
  "\<not> is_Set_external_id c \<Longrightarrow> external_id (assign c r) = external_id r"
  by (cases c) simp_all

lemma external_id_fold_assign:
  "\<not> list_ex is_Set_external_id sets \<Longrightarrow> external_id (fold assign sets r) = external_id r"
  by (induction sets arbitrary: r) (simp_all add: external_id_assign)

lemma find_item_unique:
  assumes "distinct (map id_bi (backlog_items d))" and "find_item k d = Some old"
    and "r \<in> set (backlog_items d)" and "id_bi r = k"
  shows "r = old"
  using assms find_item_in_set[OF assms(2)]
  by (metis distinct_map inj_on_def)

lemma update_backlog_item_keys:
  assumes pk: "distinct (map id_bi (backlog_items d))"
    and u: "update_backlog_item now k sets d = Inr d'"
    and noid: "\<not> list_ex is_Set_id sets" and noext: "\<not> list_ex is_Set_external_id sets"
  shows "item_keys d' = item_keys d"
proof (cases "find_item k d")
  case None
  then show ?thesis using u by (simp add: update_backlog_item_def)
next
  case (Some old)
  have "id_bi (stored_row now sets old) = id_bi r \<and>
        external_id (stored_row now sets old) = external_id r"
    if "r \<in> set (backlog_items d)" "id_bi r = k" for r
    using find_item_unique[OF pk Some that] id_bi_fold_assign[OF noid, of old]
      external_id_fold_assign[OF noext, of old]
    by simp
  then show ?thesis
    unfolding item_keys_def update_backlog_item_rows[OF Some u]
    by simp
qed

lemma keys_distinct: "item_keys d' = item_keys d \<Longrightarrow>
   distinct (map id_bi (backlog_items d')) = distinct (map id_bi (backlog_items d))"
proof -
  assume "item_keys d' = item_keys d"
  then have "map fst (item_keys d') = map fst (item_keys d)" by simp
  then show ?thesis by (simp add: item_keys_def comp_def)
qed


lemma patch_sets_no_keys:
  "\<not> list_ex is_Set_id (patch_sets p) \<and> \<not> list_ex is_Set_external_id (patch_sets p)"
  by (simp add: patch_sets_def field_sets_def split: option.splits)

lemma pk_of_keys:
  "item_keys d' = item_keys d \<Longrightarrow> distinct (map id_bi (backlog_items d)) \<Longrightarrow>
   distinct (map id_bi (backlog_items d'))"
  using keys_distinct by blast

lemma create_item_keeps:
  assumes pk: "distinct (map id_bi (backlog_items d))" and "create_item now ext f d = Inr d'"
  shows "keeps_items d d' \<and> distinct (map id_bi (backlog_items d'))"
proof -
  obtain r d1 where d1: "insert_backlog_item None r d = Inr d1"
    and d': "d' = insert_backlog_event now (seq_backlog_items d1) ext ''created''
                   [(''title'', f_title f)] ''system'' d1"
    using assms(2) by (auto simp: create_item_def Let_def split: if_splits sum.splits)
  obtain x where x: "item_keys d1 = item_keys d @ [x]"
      "fst x \<notin> set (map id_bi (backlog_items d))"
    using insert_backlog_item_keys[OF d1] by blast
  have k: "item_keys d' = item_keys d @ [x]" using x(1) d' by simp
  have "map fst (item_keys d') = map id_bi (backlog_items d')"
    by (simp add: item_keys_def comp_def)
  moreover have "map fst (item_keys d) = map id_bi (backlog_items d)"
    by (simp add: item_keys_def comp_def)
  ultimately have "map id_bi (backlog_items d') = map id_bi (backlog_items d) @ [fst x]"
    using k by (metis list.simps(8,9) map_append)
  then show ?thesis using k pk x(2) by (simp add: keeps_items_def)
qed

lemma update_item_keys:
  assumes pk: "distinct (map id_bi (backlog_items d))" and "update_item now k p d = Inr d'"
  shows "item_keys d' = item_keys d"
proof -
  obtain d1 where d1: "update_backlog_item now k (patch_sets p) d = Inr d1"
    and d': "item_keys d' = item_keys d1"
    using assms(2)
    by (auto simp: update_item_def split: option.splits if_splits sum.splits)
  show ?thesis
    using update_backlog_item_keys[OF pk d1] patch_sets_no_keys[of p] d' by simp
qed

lemma ask_keys:
  assumes pk: "distinct (map id_bi (backlog_items d))" and "ask now k q t d = Inr d'"
  shows "item_keys d' = item_keys d"
proof -
  obtain d1 where d1: "update_backlog_item now k [Set_status ''needs_clarification'']
                         (insert_clarification now k q t d) = Inr d1"
    and d': "item_keys d' = item_keys d1"
    using assms(2) by (auto simp: ask_def split: option.splits sum.splits)
  have "distinct (map id_bi (backlog_items (insert_clarification now k q t d)))"
    using pk by simp
  from update_backlog_item_keys[OF this d1] show ?thesis using d' by simp
qed

lemma item_keys_record_answer [simp]:
  "item_keys (record_answer now k c a cl item d) = item_keys d"
  by (simp add: record_answer_def item_keys_def)

lemma restore_status_keys:
  assumes "distinct (map id_bi (backlog_items d))" and "restore_status now k d = Inr d'"
  shows "item_keys d' = item_keys d"
  using assms update_backlog_item_keys[OF assms(1), of now k _ d']
  by (auto simp: restore_status_def split: if_splits sum.splits)

lemma answer_clarification_keys:
  assumes pk: "distinct (map id_bi (backlog_items d))"
    and "answer_clarification now k c a d = Inr (x, d')"
  shows "item_keys d' = item_keys d"
proof (cases "d' = d")
  case True
  then show ?thesis by simp
next
  case False
  then obtain cl item where
    r: "restore_status now k (record_answer now k c a cl item d) = Inr d'"
    using assms(2)
    by (auto simp: answer_clarification_def split: option.splits sum.splits)
  have "distinct (map id_bi (backlog_items (record_answer now k c a cl item d)))"
    using pk by (simp add: record_answer_def)
  from restore_status_keys[OF this r] show ?thesis by simp
qed

lemma engine_step_keeps:
  assumes pk: "distinct (map id_bi (backlog_items d))" and "engine_step x d = Inr d'"
  shows "keeps_items d d' \<and> distinct (map id_bi (backlog_items d'))"
proof (cases x)
  case (Pair now opn)
  show ?thesis
  proof (cases opn)
    case (Create ext f)
    then show ?thesis using assms Pair create_item_keeps by simp
  next
    case (UpdateItem k p)
    then have "item_keys d' = item_keys d" using assms Pair update_item_keys by simp
    then show ?thesis using pk pk_of_keys keeps_items_eq by blast
  next
    case (ChangeStatus k s)
    then have "item_keys d' = item_keys d"
      using assms Pair update_item_keys by (simp add: changeStatus_def)
    then show ?thesis using pk pk_of_keys keeps_items_eq by blast
  next
    case (ChangePriority k p)
    then have "item_keys d' = item_keys d"
      using assms Pair update_item_keys by (simp add: changePriority_def)
    then show ?thesis using pk pk_of_keys keeps_items_eq by blast
  next
    case (Remove ext)
    then have "item_keys d' = item_keys d"
      using assms Pair update_item_keys
      by (auto simp: remove_item_def changeStatus_def split: option.splits)
    then show ?thesis using pk pk_of_keys keeps_items_eq by blast
  next
    case (Ask k q t)
    then have "item_keys d' = item_keys d" using assms Pair ask_keys by simp
    then show ?thesis using pk pk_of_keys keeps_items_eq by blast
  next
    case (Answer k c a)
    then obtain y where "answer_clarification now k c a d = Inr (y, d')"
      using assms(2) Pair by (cases "answer_clarification now k c a d") auto
    then have "item_keys d' = item_keys d" using pk answer_clarification_keys by blast
    then show ?thesis using pk pk_of_keys keeps_items_eq by blast
  qed
qed

lemma engine_run_keeps:
  assumes "distinct (map id_bi (backlog_items d))" and "engine_run ops d = Inr d'"
  shows "keeps_items d d' \<and> distinct (map id_bi (backlog_items d'))"
  using assms
proof (induction ops arbitrary: d)
  case Nil
  then show ?case by simp
next
  case (Cons x ops)
  from Cons.prems(2) obtain d1 where d1: "engine_step x d = Inr d1" "engine_run ops d1 = Inr d'"
    by (auto split: sum.splits)
  note s = engine_step_keeps[OF Cons.prems(1) d1(1)]
  from Cons.IH[OF conjunct2[OF s] d1(2)] s show ?case
    using keeps_items_trans by blast
qed

lemma keeps_items_present:
  assumes "keeps_items d d'" and "r \<in> set (backlog_items d)"
  shows "\<exists>r' \<in> set (backlog_items d'). id_bi r' = id_bi r \<and> external_id r' = external_id r"
proof -
  have "(id_bi r, external_id r) \<in> set (item_keys d)"
    using assms(2) by (force simp: item_keys_def)
  then have "(id_bi r, external_id r) \<in> set (item_keys d')"
    using assms(1) unfolding keeps_items_def by (metis in_set_takeD)
  then show ?thesis by (auto simp: item_keys_def)
qed


lemma find_map_same:
  "(\<And>x. x \<in> set xs \<Longrightarrow> P (f x) = P x) \<Longrightarrow> find P (map f xs) = map_option f (find P xs)"
  by (induction xs) auto

lemma remove_item_cancels:
  assumes pk: "distinct (map id_bi (backlog_items d))" and rm: "remove_item now ext d = Inr d1"
  shows "item_keys d1 = item_keys d \<and>
         (\<exists>r. find (\<lambda>r. external_id r = ext) (backlog_items d1) = Some r \<and>
              status r = ''cancelled'')"
proof -
  obtain r0 where r0: "find (\<lambda>r. external_id r = ext) (backlog_items d) = Some r0"
    and cs: "update_item now (id_bi r0) (no_patch\<lparr>p_status := Some ''cancelled''\<rparr>) d = Inr d1"
    using rm by (auto simp: remove_item_def changeStatus_def split: option.splits)
  let ?k = "id_bi r0"
  have r0_in: "r0 \<in> set (backlog_items d)" and r0_ext: "external_id r0 = ext"
    using r0 by (auto simp: find_Some_iff)
  obtain old where old: "find_item ?k d = Some old"
    using cs by (auto simp: update_item_def split: option.splits)
  have old_r0: "old = r0"
    using find_item_unique[OF pk old r0_in] by simp
  have ps: "patch_sets (no_patch\<lparr>p_status := Some ''cancelled''\<rparr>) = [Set_status ''cancelled'']"
    by (simp add: patch_sets_def field_sets_def no_patch_def)
  obtain d0 where d0: "update_backlog_item now ?k [Set_status ''cancelled''] d = Inr d0"
    and rows1: "backlog_items d1 = backlog_items d0"
    using cs old unfolding update_item_def ps
    by (auto split: if_splits sum.splits)
  let ?st = "stored_row now [Set_status ''cancelled''] r0"
  have rows: "backlog_items d1 = map (\<lambda>r. if id_bi r = ?k then ?st else r) (backlog_items d)"
    using update_backlog_item_rows[OF old d0] rows1 old_r0 by simp
  have same: "(external_id (if id_bi x = ?k then ?st else x) = ext) = (external_id x = ext)"
    if "x \<in> set (backlog_items d)" for x
    using find_item_unique[OF pk old that] old_r0 r0_ext by auto
  have "find (\<lambda>r. external_id r = ext) (backlog_items d1) = Some ?st"
    unfolding rows
    using find_map_same[of "backlog_items d" "\<lambda>r. external_id r = ext"
        "\<lambda>r. if id_bi r = ?k then ?st else r"] same r0
    by simp
  moreover have "status ?st = ''cancelled''" by simp
  ultimately show ?thesis using update_item_keys[OF pk cs] by blast
qed

text \<open>
  Claim C2. Over every run of the operations (create, update, change of status or
  priority, removal, ask, answer) every item that was in the store is still there, under
  its key and its external id and at its place, so the store never shrinks; and a removal
  that succeeds leaves the same items, the removed one in status \<open>cancelled\<close>.
\<close>

theorem no_operation_deletes_an_item:
  assumes "distinct (map id_bi (backlog_items d))" and "engine_run ops d = Inr d'"
  shows "keeps_items d d' \<and>
         length (backlog_items d) \<le> length (backlog_items d') \<and>
         (\<forall>r \<in> set (backlog_items d).
            \<exists>r' \<in> set (backlog_items d'). id_bi r' = id_bi r \<and> external_id r' = external_id r) \<and>
         (\<forall>now ext d1. remove_item now ext d' = Inr d1 \<longrightarrow>
            item_keys d1 = item_keys d' \<and>
            (\<exists>r. find (\<lambda>r. external_id r = ext) (backlog_items d1) = Some r \<and>
                 status r = ''cancelled''))"
proof -
  note k = engine_run_keeps[OF assms]
  have len: "length (backlog_items d) \<le> length (backlog_items d')"
  proof -
    have "length (take (length (item_keys d)) (item_keys d')) = length (item_keys d)"
      using conjunct1[OF k] unfolding keeps_items_def by simp
    then have "length (item_keys d) \<le> length (item_keys d')"
      by simp
    then show ?thesis by (simp add: item_keys_def)
  qed
  show ?thesis
    using k len keeps_items_present[OF conjunct1[OF k]] remove_item_cancels[OF conjunct2[OF k]]
    by blast
qed


theorem no_operation_deletes_an_item_witness:
  "distinct (map id_bi (backlog_items ex_db)) \<and>
   (\<exists>d'. engine_run [(2, Create ''e2'' ex_fields), (3, Ask 1 ''Which environment?'' None),
                     (4, Remove ''e1'')] ex_db = Inr d' \<and>
      map (\<lambda>r. (external_id r, status r)) (backlog_items d') =
        [(''e1'', ''cancelled''), (''e2'', ''open'')] \<and>
      keeps_items ex_db d')"
proof -
  let ?ops = "[(2, Create ''e2'' ex_fields), (3, Ask 1 ''Which environment?'' None),
                     (4::nat, Remove ''e1'')]"
  have pk: "distinct (map id_bi (backlog_items ex_db))"
    by (simp add: ex_db_def ex_item_def empty_db_def)
  have "\<exists>d'. engine_run ?ops ex_db = Inr d' \<and>
      map (\<lambda>r. (external_id r, status r)) (backlog_items d') =
        [(''e1'', ''cancelled''), (''e2'', ''open'')]"
    by (simp add: engine_defs sql_defs ex_db_def ex_item_def ex_fields_def)
  then obtain d' where d': "engine_run ?ops ex_db = Inr d'"
      "map (\<lambda>r. (external_id r, status r)) (backlog_items d') =
        [(''e1'', ''cancelled''), (''e2'', ''open'')]"
    by (elim exE conjE)
  have "keeps_items ex_db d'"
    using no_operation_deletes_an_item[OF pk d'(1)] by (elim conjE)
  then show ?thesis
    using pk d' by (intro conjI exI[of _ d'])
qed

subsection \<open>Answering a clarification\<close>

lemma clarifications_insert_backlog_event [simp]:
  "clarifications (insert_backlog_event now k ext ty data actor d) = clarifications d"
  by (simp add: insert_backlog_event_def Let_def)

lemma clarifications_record_answer:
  "clarifications (record_answer now k c a cl item d) =
     map (\<lambda>x. if id_cl x = c \<and> item_id_cl x = k
              then x\<lparr>answer := Some a, answered_at := Some now\<rparr> else x) (clarifications d)"
  by (simp add: record_answer_def)

lemma clarifications_restore_status:
  "restore_status now k d = Inr d' \<Longrightarrow> clarifications d' = clarifications d"
  using update_backlog_item_clarifications
  by (auto simp: restore_status_def split: if_splits sum.splits)

lemma find_clarification_record_answer:
  assumes "find (\<lambda>x. id_cl x = c \<and> item_id_cl x = k) (clarifications d) = Some cl"
  shows "find (\<lambda>x. id_cl x = c \<and> item_id_cl x = k)
           (clarifications (record_answer now k c a cl item d)) =
         Some (cl\<lparr>answer := Some a, answered_at := Some now\<rparr>)"
proof -
  have "find (\<lambda>x. id_cl x = c \<and> item_id_cl x = k)
          (map (\<lambda>x. if id_cl x = c \<and> item_id_cl x = k
              then x\<lparr>answer := Some a, answered_at := Some now\<rparr> else x) (clarifications d))
        = map_option (\<lambda>x. if id_cl x = c \<and> item_id_cl x = k
              then x\<lparr>answer := Some a, answered_at := Some now\<rparr> else x)
            (find (\<lambda>x. id_cl x = c \<and> item_id_cl x = k) (clarifications d))"
    by (rule find_map_same) simp
  moreover have "id_cl cl = c \<and> item_id_cl cl = k"
    using assms by (auto simp: find_Some_iff)
  ultimately show ?thesis using assms by (simp add: clarifications_record_answer)
qed

lemma answer_clarification_again:
  assumes "answer_clarification now k c a d = Inr (x, d1)"
  shows "answer_clarification now' k c a' d1 = Inr (x, d1)"
proof -
  obtain cl where cl: "find (\<lambda>x. id_cl x = c \<and> item_id_cl x = k) (clarifications d) = Some cl"
    using assms by (auto simp: answer_clarification_def split: option.splits)
  show ?thesis
  proof (cases "answer cl")
    case (Some prior)
    then have "x = prior" "d1 = d"
      using assms cl by (simp_all add: answer_clarification_def)
    then show ?thesis using cl Some by (simp add: answer_clarification_def)
  next
    case None
    then obtain item where item: "find_item k d = Some item"
      and r: "restore_status now k (record_answer now k c a cl item d) = Inr d1" and x: "x = a"
      using assms cl
      by (auto simp: answer_clarification_def split: option.splits sum.splits)
    have "find (\<lambda>x. id_cl x = c \<and> item_id_cl x = k) (clarifications d1) =
            Some (cl\<lparr>answer := Some a, answered_at := Some now\<rparr>)"
      using find_clarification_record_answer[OF cl] clarifications_restore_status[OF r]
      by simp
    then show ?thesis using x by (simp add: answer_clarification_def)
  qed
qed


lemma fold_max_ge: "(s::int) \<le> fold max xs s"
proof (induction xs arbitrary: s)
  case Nil
  show ?case by simp
next
  case (Cons a xs)
  have "s \<le> max a s" by simp
  also have "\<dots> \<le> fold max xs (max a s)" by (rule Cons.IH)
  finally show ?case by simp
qed

lemma fold_max_mem: "x \<in> set xs \<Longrightarrow> (x::int) \<le> fold max xs s"
proof (induction xs arbitrary: s)
  case Nil
  then show ?case by simp
next
  case (Cons a xs)
  show ?case
  proof (cases "x = a")
    case True
    have "x \<le> max a s" using True by simp
    also have "\<dots> \<le> fold max xs (max a s)" by (rule fold_max_ge)
    finally show ?thesis by simp
  next
    case False
    then show ?thesis using Cons by simp
  qed
qed

lemma next_rowid_fresh: "x \<in> set ids \<Longrightarrow> x < next_rowid seq ids"
  using fold_max_mem[of x ids seq] by (simp add: next_rowid_def)

lemma find_append_None: "find P xs = None \<Longrightarrow> find P (xs @ ys) = find P ys"
  by (induction xs) (auto split: if_splits)

lemma constraint_error_cong:
  assumes "priority r' = priority r" "item_type r' = item_type r" "status r' = status r"
    "estimated_effort r' = estimated_effort r" "id_bi r' = id_bi r"
    "external_id r' = external_id r"
  shows "constraint_error others r' = constraint_error others r"
  using assms by (simp add: constraint_error_def)

lemma filter_others_map:
  assumes "id_bi x = k"
  shows "filter (\<lambda>r. id_bi r \<noteq> k) (map (\<lambda>r. if id_bi r = k then x else r) rs)
           = filter (\<lambda>r. id_bi r \<noteq> k) rs"
  using assms by (induction rs) auto

lemma update_status_succeeds:
  assumes f: "find_item k d = Some old"
    and c: "constraint_error (filter (\<lambda>r. id_bi r \<noteq> k) (backlog_items d)) old = None"
    and s: "status_check s"
  shows "\<exists>d'. update_backlog_item now k [Set_status s] d = Inr d'"
  using assms by (simp add: update_backlog_item_def constraint_error_status Let_def)


lemma constraint_error_status_check:
  "constraint_error others r = None \<Longrightarrow> status_check (status r)"
  by (auto simp: constraint_error_def split: if_splits)

lemma set_v_needs_clarification:
  "set (v_needs_clarification d) =
     {(b, c). b \<in> set (backlog_items d) \<and> c \<in> set (clarifications d) \<and>
        id_bi b = item_id_cl c \<and> status b = ''needs_clarification'' \<and> answer c = None}"
  by (auto simp: v_needs_clarification_def)

lemma v_needs_clarification_none_open:
  assumes "open_clarifications k d = []" and "(b, c) \<in> set (v_needs_clarification d)"
  shows "id_bi b \<noteq> k"
proof
  assume "id_bi b = k"
  with assms(2) have "c \<in> set (open_clarifications k d)"
    by (auto simp: set_v_needs_clarification open_clarifications_def)
  with assms(1) show False by simp
qed

lemma ask_then_answer:
  assumes f: "find_item k d = Some item"
    and c: "constraint_error (filter (\<lambda>r. id_bi r \<noteq> k) (backlog_items d)) item = None"
    and s0: "status item \<noteq> ''needs_clarification''"
    and op: "open_clarifications k d = []"
  shows "\<exists>d1 d2. ask now k q t d = Inr d1 \<and>
           map_option status (find_item k d1) = Some ''needs_clarification'' \<and>
           answer_clarification now' k
             (next_rowid (seq_clarifications d) (map id_cl (clarifications d))) a d1 = Inr (a, d2) \<and>
           map_option status (find_item k d2) = Some (status item) \<and>
           length (backlog_items d2) = length (backlog_items d) \<and>
           open_clarifications k d2 = []"
proof -
  let ?nc = "''needs_clarification''"
  let ?c = "next_rowid (seq_clarifications d) (map id_cl (clarifications d))"
  let ?new = "\<lparr>id_cl = ?c, item_id_cl = k, question = q, answer = None, asked_at = Some now,
                 answered_at = None, thread_ts = t\<rparr>"
  let ?d0 = "insert_clarification now k q t d"
  let ?others = "filter (\<lambda>r. id_bi r \<noteq> k) (backlog_items d)"
  have idk: "id_bi item = k" using find_item_in_set[OF f] by simp
  have f0: "find_item k ?d0 = Some item" using f by simp
  have c0: "constraint_error (filter (\<lambda>r. id_bi r \<noteq> k) (backlog_items ?d0)) item = None"
    using c by simp
  have nc: "status_check ?nc" by (simp add: status_check_def)
  obtain d1' where u1: "update_backlog_item now k [Set_status ?nc] ?d0 = Inr d1'"
    using update_status_succeeds[OF f0 c0 nc] by blast
  define d1 where "d1 = insert_backlog_event now k (external_id item) ''clarification_asked''
                      [(''question'', q)] ''system'' d1'"
  have ask: "ask now k q t d = Inr d1"
    using f u1 by (simp add: ask_def d1_def)
  let ?st1 = "stored_row now [Set_status ?nc] item"
  have idst1: "id_bi ?st1 = k" using idk by simp
  have rows1: "backlog_items d1 = map (\<lambda>r. if id_bi r = k then ?st1 else r) (backlog_items d)"
    using update_backlog_item_rows[OF f0 u1] by (simp add: d1_def)
  have f1: "find_item k d1 = Some ?st1"
    using update_backlog_item_find[OF f0 u1] idk by (simp add: d1_def find_item_def)
  obtain es where es: "backlog_events d1' = backlog_events ?d0 @ es"
      "map ev_fact es = status_facts item (fold assign [Set_status ?nc] item) @
                        priority_facts item (fold assign [Set_status ?nc] item)"
    using update_backlog_item_events[OF f0 u1] by blast
  have "map ev_fact es = [(k, ''status_changed'',
            Some [(''old_status'', status item), (''new_status'', ?nc)])]"
    using es(2) s0 idk by (simp add: status_facts_def priority_facts_def)
  then obtain e where e: "es = [e]" "item_id_ev e = k" "event_type e = ''status_changed''"
      "event_data e = Some [(''old_status'', status item), (''new_status'', ?nc)]"
    by (auto simp: ev_fact_def map_eq_Cons_conv)
  have ev0: "backlog_events ?d0 = backlog_events d"
    by (simp add: insert_clarification_def Let_def)
  have cl1: "clarifications d1 = clarifications d @ [?new]"
    using update_backlog_item_clarifications[OF u1]
    by (simp add: d1_def insert_clarification_def Let_def)
  have "find (\<lambda>x. id_cl x = ?c \<and> item_id_cl x = k) (clarifications d) = None"
    using next_rowid_fresh[of _ "map id_cl (clarifications d)" "seq_clarifications d"]
    by (force simp: find_None_iff)
  then have fcl: "find (\<lambda>x. id_cl x = ?c \<and> item_id_cl x = k) (clarifications d1) = Some ?new"
    unfolding cl1 by (simp add: find_append_None)
  define d1a where "d1a = record_answer now' k ?c a ?new ?st1 d1"
  have rows1a: "backlog_items d1a = backlog_items d1"
    by (simp add: d1a_def record_answer_def)
  have f1a: "find_item k d1a = Some ?st1"
    using f1 by (simp add: find_item_def rows1a)
  have old_same: "(if id_cl x = ?c \<and> item_id_cl x = k
              then x\<lparr>answer := Some a, answered_at := Some now'\<rparr> else x) = x"
    if "x \<in> set (clarifications d)" for x
    using next_rowid_fresh[of "id_cl x" "map id_cl (clarifications d)" "seq_clarifications d"] that
    by auto
  have cl1a: "clarifications d1a = clarifications d @
                 [?new\<lparr>answer := Some a, answered_at := Some now'\<rparr>]"
    unfolding d1a_def clarifications_record_answer cl1 using old_same
    by (simp add: map_idI)
  have op1a: "open_clarifications k d1a = []"
    using op by (simp add: open_clarifications_def cl1a)
  have ev1a: "rev (backlog_events d1a) =
      \<lparr>id_ev = next_rowid (seq_backlog_events d1) (map id_ev (backlog_events d1)),
        item_id_ev = k, external_id_ev = external_id ?st1,
        event_type = ''clarification_answered'',
        event_data = Some [(''question'', question ?new), (''answer'', a)],
        actor_type = ''user'', actor_id = None, created_at_ev = Some now'\<rparr> #
      \<lparr>id_ev = next_rowid (seq_backlog_events d1') (map id_ev (backlog_events d1')),
        item_id_ev = k, external_id_ev = external_id item,
        event_type = ''clarification_asked'', event_data = Some [(''question'', q)],
        actor_type = ''system'', actor_id = None, created_at_ev = Some now\<rparr> #
      e # rev (backlog_events d)"
    using es(1) e(1) ev0
    by (simp add: d1a_def record_answer_def d1_def insert_backlog_event_def Let_def)
  have pre: "pre_clarification_status k d1a = status item"
    unfolding pre_clarification_status_def ev1a
    using e by (simp add: enters_clarification_def)
  have others1a: "filter (\<lambda>r. id_bi r \<noteq> k) (backlog_items d1a) = ?others"
    unfolding rows1a rows1 using filter_others_map[OF idst1] by simp
  have "constraint_error ?others ?st1 = constraint_error ?others (item\<lparr>status := ?nc\<rparr>)"
    by (rule constraint_error_cong) (simp_all add: stored_row_def)
  then have c1a: "constraint_error (filter (\<lambda>r. id_bi r \<noteq> k) (backlog_items d1a)) ?st1 = None"
    using constraint_error_status[OF c, of ?nc] nc others1a by simp
  obtain d2 where u2: "update_backlog_item now' k [Set_status (status item)] d1a = Inr d2"
    using update_status_succeeds[OF f1a c1a constraint_error_status_check[OF c]] by blast
  have rs: "restore_status now' k d1a = Inr d2"
    using op1a pre u2 by (simp add: restore_status_def)
  have ans: "answer_clarification now' k ?c a d1 = Inr (a, d2)"
    using fcl f1 rs by (simp add: answer_clarification_def d1a_def)
  have st2: "map_option status (find_item k d2) = Some (status item)"
    using update_backlog_item_find[OF f1a u2] idst1 by simp
  have len: "length (backlog_items d2) = length (backlog_items d)"
    using update_backlog_item_rows[OF f1a u2] rows1a rows1 by simp
  have op2: "open_clarifications k d2 = []"
    using op1a update_backlog_item_clarifications[OF u2] by (simp add: open_clarifications_def)
  have st1: "map_option status (find_item k d1) = Some ?nc"
    using f1 by simp
  show ?thesis using ask st1 ans st2 len op2 by blast
qed


lemma filter_open_map_answer:
  "filter (\<lambda>x. item_id_cl x = k \<and> answer x = None)
     (map (\<lambda>x. if id_cl x = c \<and> item_id_cl x = k
              then x\<lparr>answer := Some a, answered_at := Some now\<rparr> else x) xs)
   = filter (\<lambda>x. \<not> (id_cl x = c \<and> item_id_cl x = k))
       (filter (\<lambda>x. item_id_cl x = k \<and> answer x = None) xs)"
  by (induction xs) auto

lemma open_clarifications_record_answer:
  "open_clarifications k (record_answer now k c a cl item d) =
     filter (\<lambda>x. \<not> (id_cl x = c \<and> item_id_cl x = k)) (open_clarifications k d)"
  by (simp add: open_clarifications_def clarifications_record_answer filter_open_map_answer)

lemma pre_clarification_status_append:
  assumes "backlog_events d' = backlog_events d @ es"
    and "\<forall>e \<in> set es. \<not> enters_clarification k e"
  shows "pre_clarification_status k d' = pre_clarification_status k d"
proof -
  have "find (enters_clarification k) (rev es) = None"
    using assms(2) by (simp add: find_None_iff)
  then have "find (enters_clarification k) (rev (backlog_events d')) =
             find (enters_clarification k) (rev (backlog_events d))"
    unfolding assms(1) by (simp add: find_append_None)
  then show ?thesis by (simp add: pre_clarification_status_def)
qed

lemma backlog_events_record_answer:
  "\<exists>e. backlog_events (record_answer now k c a cl item d) = backlog_events d @ [e] \<and>
        event_type e = ''clarification_answered''"
  by (simp add: record_answer_def insert_backlog_event_def Let_def)

lemma pre_clarification_status_record_answer:
  "pre_clarification_status k' (record_answer now k c a cl item d) = pre_clarification_status k' d"
proof -
  obtain e where e: "backlog_events (record_answer now k c a cl item d) = backlog_events d @ [e]"
      "event_type e = ''clarification_answered''"
    using backlog_events_record_answer by blast
  have "\<forall>x \<in> set [e]. \<not> enters_clarification k' x"
    using e(2) by (simp add: enters_clarification_def)
  from pre_clarification_status_append[OF e(1) this] show ?thesis .
qed

lemma backlog_items_record_answer [simp]:
  "backlog_items (record_answer now k c a cl item d) = backlog_items d"
  by (simp add: record_answer_def)

lemma find_item_record_answer [simp]:
  "find_item j (record_answer now k c a cl item d) = find_item j d"
  by (simp add: find_item_def)

lemma count_events_record_answer:
  "count_events ''clarification_answered'' (record_answer now k c a cl item d) =
     count_events ''clarification_answered'' d + 1"
  by (simp add: count_events_def record_answer_def insert_backlog_event_def Let_def)

lemma update_backlog_item_count_other:
  assumes "update_backlog_item now k sets d = Inr d'"
    and "ty \<noteq> ''status_changed''" and "ty \<noteq> ''priority_changed''"
  shows "count_events ty d' = count_events ty d"
proof (cases "find_item k d")
  case None
  then show ?thesis using assms(1) by (simp add: update_backlog_item_def)
next
  case (Some old)
  obtain es where es: "backlog_events d' = backlog_events d @ es"
      "map ev_fact es = status_facts old (fold assign sets old) @
                        priority_facts old (fold assign sets old)"
    using update_backlog_item_events[OF Some assms(1)] by blast
  show ?thesis
    unfolding count_events_append[OF es(1)] es(2)
    using assms(2,3) by (simp add: status_facts_def priority_facts_def)
qed

lemma schema_ok_cong: "backlog_items d' = backlog_items d \<Longrightarrow> schema_ok d' = schema_ok d"
  by (simp add: schema_ok_def)

lemma restore_status_effect:
  assumes f: "find_item k d = Some item" and r: "restore_status now k d = Inr d'"
  shows "open_clarifications k d' = open_clarifications k d"
    and "count_events ''clarification_answered'' d' = count_events ''clarification_answered'' d"
    and "length (backlog_items d') = length (backlog_items d)"
    and "open_clarifications k d \<noteq> [] \<Longrightarrow> d' = d"
    and "open_clarifications k d = [] \<Longrightarrow>
           map_option status (find_item k d') = Some (pre_clarification_status k d)"
    and "schema_ok d \<Longrightarrow> schema_ok d'"
proof -
  show "open_clarifications k d \<noteq> [] \<Longrightarrow> d' = d"
    using r by (simp add: restore_status_def)
  have u: "update_backlog_item now k [Set_status (pre_clarification_status k d)] d = Inr d'"
    if "open_clarifications k d = []"
    using r that by (simp add: restore_status_def split: sum.splits)
  have idk: "id_bi item = k" using find_item_in_set[OF f] by simp
  show "open_clarifications k d = [] \<Longrightarrow>
           map_option status (find_item k d') = Some (pre_clarification_status k d)"
    using update_backlog_item_find[OF f u] idk by simp
  show "open_clarifications k d' = open_clarifications k d"
    using clarifications_restore_status[OF r] by (simp add: open_clarifications_def)
  show "count_events ''clarification_answered'' d' = count_events ''clarification_answered'' d"
    using r update_backlog_item_count_other[of now k _ d d' "''clarification_answered''"]
    by (auto simp: restore_status_def split: if_splits sum.splits)
  show "length (backlog_items d') = length (backlog_items d)"
    using r update_backlog_item_rows[OF f, of now _ d']
    by (auto simp: restore_status_def split: if_splits sum.splits)
  show "schema_ok d \<Longrightarrow> schema_ok d'"
    using r schema_ok_update[of d now k _ d']
    by (auto simp: restore_status_def split: if_splits sum.splits)
qed

lemma restore_status_succeeds:
  assumes ok: "schema_ok d" and f: "find_item k d = Some item"
    and v: "status_check (pre_clarification_status k d)"
  shows "\<exists>d'. restore_status now k d = Inr d'"
proof (cases "open_clarifications k d = []")
  case True
  obtain d' where "update_backlog_item now k [Set_status (pre_clarification_status k d)] d = Inr d'"
    using update_status_succeeds[OF f schema_ok_row[OF ok f] v] by blast
  then show ?thesis using True by (simp add: restore_status_def)
next
  case False
  then show ?thesis by (simp add: restore_status_def)
qed

lemma answer_clarification_fresh:
  assumes cl: "find (\<lambda>x. id_cl x = c \<and> item_id_cl x = k) (clarifications d) = Some cl"
    and un: "answer cl = None" and f: "find_item k d = Some item"
  shows "answer_clarification now k c a d =
           (case restore_status now k (record_answer now k c a cl item d) of
              Inl e \<Rightarrow> Inl e | Inr d' \<Rightarrow> Inr (a, d'))"
  using assms by (simp add: answer_clarification_def)


lemma answer_fresh_effect:
  assumes ok: "schema_ok d"
    and cl: "find (\<lambda>x. id_cl x = c \<and> item_id_cl x = k) (clarifications d) = Some cl"
    and un: "answer cl = None" and f: "find_item k d = Some item"
    and v: "status_check (pre_clarification_status k d)"
  shows "\<exists>d'. answer_clarification now k c a d = Inr (a, d') \<and> schema_ok d' \<and>
           open_clarifications k d' =
             filter (\<lambda>x. \<not> (id_cl x = c \<and> item_id_cl x = k)) (open_clarifications k d) \<and>
           count_events ''clarification_answered'' d' =
             count_events ''clarification_answered'' d + 1 \<and>
           length (backlog_items d') = length (backlog_items d) \<and>
           (filter (\<lambda>x. \<not> (id_cl x = c \<and> item_id_cl x = k)) (open_clarifications k d) \<noteq> [] \<longrightarrow>
              backlog_items d' = backlog_items d \<and>
              pre_clarification_status k d' = pre_clarification_status k d) \<and>
           (filter (\<lambda>x. \<not> (id_cl x = c \<and> item_id_cl x = k)) (open_clarifications k d) = [] \<longrightarrow>
              map_option status (find_item k d') = Some (pre_clarification_status k d))"
proof -
  let ?d1 = "record_answer now k c a cl item d"
  have ok1: "schema_ok ?d1" using ok schema_ok_cong[of ?d1 d] by simp
  have f1: "find_item k ?d1 = Some item" using f by simp
  have p1: "pre_clarification_status k ?d1 = pre_clarification_status k d"
    by (rule pre_clarification_status_record_answer)
  obtain d' where r: "restore_status now k ?d1 = Inr d'"
    using restore_status_succeeds[OF ok1 f1] v p1 by auto
  note e = restore_status_effect[OF f1 r]
  have ans: "answer_clarification now k c a d = Inr (a, d')"
    using r by (simp add: answer_clarification_fresh[OF cl un f])
  have o: "open_clarifications k d' =
             filter (\<lambda>x. \<not> (id_cl x = c \<and> item_id_cl x = k)) (open_clarifications k d)"
    using e(1) by (simp add: open_clarifications_record_answer)
  have n: "count_events ''clarification_answered'' d' =
             count_events ''clarification_answered'' d + 1"
    using e(2) by (simp add: count_events_record_answer)
  have l: "length (backlog_items d') = length (backlog_items d)"
    using e(3) by simp
  have more: "backlog_items d' = backlog_items d \<and>
              pre_clarification_status k d' = pre_clarification_status k d"
    if "filter (\<lambda>x. \<not> (id_cl x = c \<and> item_id_cl x = k)) (open_clarifications k d) \<noteq> []"
  proof -
    have "d' = ?d1" using e(4) that by (simp add: open_clarifications_record_answer)
    then show ?thesis using p1 by simp
  qed
  have last: "map_option status (find_item k d') = Some (pre_clarification_status k d)"
    if "filter (\<lambda>x. \<not> (id_cl x = c \<and> item_id_cl x = k)) (open_clarifications k d) = []"
    using e(5) that p1 by (simp add: open_clarifications_record_answer)
  show ?thesis using ans e(6)[OF ok1] o n l more last by blast
qed

lemma ask_effect:
  assumes ok: "schema_ok d" and f: "find_item k d = Some item"
  shows "\<exists>d1. ask now k q t d = Inr d1 \<and> schema_ok d1 \<and>
           map_option status (find_item k d1) = Some ''needs_clarification'' \<and>
           length (backlog_items d1) = length (backlog_items d) \<and>
           open_clarifications k d1 = open_clarifications k d @
             [\<lparr>id_cl = next_rowid (seq_clarifications d) (map id_cl (clarifications d)),
               item_id_cl = k, question = q, answer = None, asked_at = Some now,
               answered_at = None, thread_ts = t\<rparr>] \<and>
           find (\<lambda>x. id_cl x = next_rowid (seq_clarifications d) (map id_cl (clarifications d)) \<and>
                     item_id_cl x = k) (clarifications d1) =
             Some \<lparr>id_cl = next_rowid (seq_clarifications d) (map id_cl (clarifications d)),
               item_id_cl = k, question = q, answer = None, asked_at = Some now,
               answered_at = None, thread_ts = t\<rparr> \<and>
           pre_clarification_status k d1 =
             (if status item = ''needs_clarification'' then pre_clarification_status k d
              else status item)"
proof -
  let ?nc = "''needs_clarification''"
  let ?c = "next_rowid (seq_clarifications d) (map id_cl (clarifications d))"
  let ?new = "\<lparr>id_cl = ?c, item_id_cl = k, question = q, answer = None, asked_at = Some now,
                 answered_at = None, thread_ts = t\<rparr>"
  let ?d0 = "insert_clarification now k q t d"
  have idk: "id_bi item = k" using find_item_in_set[OF f] by simp
  have f0: "find_item k ?d0 = Some item" using f by simp
  have ok0: "schema_ok ?d0" using ok schema_ok_cong[of ?d0 d] by simp
  have nc: "status_check ?nc" by (simp add: status_check_def)
  obtain d1' where u1: "update_backlog_item now k [Set_status ?nc] ?d0 = Inr d1'"
    using update_status_succeeds[OF f0 schema_ok_row[OF ok0 f0] nc] by blast
  define d1 where "d1 = insert_backlog_event now k (external_id item) ''clarification_asked''
                      [(''question'', q)] ''system'' d1'"
  have ask: "ask now k q t d = Inr d1"
    using f u1 by (simp add: ask_def d1_def)
  have ok1: "schema_ok d1"
    using schema_ok_update[OF ok0 u1] schema_ok_cong[of d1 d1'] by (simp add: d1_def)
  have st1: "map_option status (find_item k d1) = Some ?nc"
    using update_backlog_item_find[OF f0 u1] idk by (simp add: d1_def)
  have len: "length (backlog_items d1) = length (backlog_items d)"
    using update_backlog_item_rows[OF f0 u1] by (simp add: d1_def)
  have cl1: "clarifications d1 = clarifications d @ [?new]"
    using update_backlog_item_clarifications[OF u1]
    by (simp add: d1_def insert_clarification_def Let_def)
  have op1: "open_clarifications k d1 = open_clarifications k d @ [?new]"
    by (simp add: open_clarifications_def cl1)
  have "find (\<lambda>x. id_cl x = ?c \<and> item_id_cl x = k) (clarifications d) = None"
    using next_rowid_fresh[of _ "map id_cl (clarifications d)" "seq_clarifications d"]
    by (force simp: find_None_iff)
  then have fcl: "find (\<lambda>x. id_cl x = ?c \<and> item_id_cl x = k) (clarifications d1) = Some ?new"
    unfolding cl1 by (simp add: find_append_None)
  obtain es where es: "backlog_events d1' = backlog_events ?d0 @ es"
      "map ev_fact es = status_facts item (fold assign [Set_status ?nc] item) @
                        priority_facts item (fold assign [Set_status ?nc] item)"
    using update_backlog_item_events[OF f0 u1] by blast
  have ev0: "backlog_events ?d0 = backlog_events d"
    by (simp add: insert_clarification_def Let_def)
  obtain asked where asked: "backlog_events d1 = backlog_events d @ es @ [asked]"
      "event_type asked = ''clarification_asked''"
    using es(1) ev0 by (simp add: d1_def insert_backlog_event_def Let_def)
  have na: "\<not> enters_clarification k asked"
    using asked(2) by (simp add: enters_clarification_def)
  have pre: "pre_clarification_status k d1 =
             (if status item = ?nc then pre_clarification_status k d else status item)"
  proof (cases "status item = ?nc")
    case True
    then have "es = []" using es(2) by (simp add: status_facts_def priority_facts_def)
    then have "\<forall>e \<in> set (es @ [asked]). \<not> enters_clarification k e" using na by simp
    from pre_clarification_status_append[OF asked(1) this] show ?thesis using True by simp
  next
    case False
    then have "map ev_fact es = [(k, ''status_changed'',
            Some [(''old_status'', status item), (''new_status'', ?nc)])]"
      using es(2) idk by (simp add: status_facts_def priority_facts_def)
    then obtain e where e: "es = [e]" "item_id_ev e = k" "event_type e = ''status_changed''"
        "event_data e = Some [(''old_status'', status item), (''new_status'', ?nc)]"
      by (auto simp: ev_fact_def map_eq_Cons_conv)
    have ne: "enters_clarification k e"
      using e by (simp add: enters_clarification_def)
    have "rev (backlog_events d1) = asked # e # rev (backlog_events d)"
      using asked(1) e(1) by simp
    then have "find (enters_clarification k) (rev (backlog_events d1)) = Some e"
      using na ne by simp
    then have "pre_clarification_status k d1 = status item"
      unfolding pre_clarification_status_def using e(4) by simp
    then show ?thesis using False by simp
  qed
  show ?thesis using ask ok1 st1 len op1 fcl pre by blast
qed

text \<open>
  Claim C6. Answering is idempotent: after an answer that succeeded, answering the same
  clarification again, with any text and at any time, returns the answer that stands and
  leaves the whole store as it is, so no further \<open>clarification_answered\<close> event is
  written. Asking, in a store that meets the constraints, succeeds: the item is in
  \<open>needs_clarification\<close>, the new clarification is added to the open ones of the item,
  and the status to go back to is the one the item had, or stays what it was when the
  item was in \<open>needs_clarification\<close> already. Answering an open clarification, where the
  status to go back to is one of the six, succeeds with the answer given: the
  clarification leaves the open ones, one \<open>clarification_answered\<close> event is written and
  the number of items is the same; while other clarifications of the item remain open
  the rows of the items are untouched, and when none remains the item has the status it
  had before the clarification. For an item with no open clarification and a status
  other than \<open>needs_clarification\<close>, asking and then answering brings the status back,
  with no row left for the item in \<open>v_needs_clarification\<close>. Where the log has no entry
  into \<open>needs_clarification\<close> for the item, the status to go back to is \<open>open\<close>.
\<close>

theorem answering_a_clarification_is_idempotent:
  "(answer_clarification now k c a d = Inr (x, d1) \<longrightarrow>
      answer_clarification now' k c a' d1 = Inr (x, d1)) \<and>
   (schema_ok d \<and> find_item k d = Some item \<longrightarrow>
      (\<exists>d1. ask now k q t d = Inr d1 \<and> schema_ok d1 \<and>
         map_option status (find_item k d1) = Some ''needs_clarification'' \<and>
         length (backlog_items d1) = length (backlog_items d) \<and>
         open_clarifications k d1 = open_clarifications k d @
           [\<lparr>id_cl = next_rowid (seq_clarifications d) (map id_cl (clarifications d)),
             item_id_cl = k, question = q, answer = None, asked_at = Some now,
             answered_at = None, thread_ts = t\<rparr>] \<and>
         find (\<lambda>x. id_cl x = next_rowid (seq_clarifications d) (map id_cl (clarifications d)) \<and>
                   item_id_cl x = k) (clarifications d1) =
           Some \<lparr>id_cl = next_rowid (seq_clarifications d) (map id_cl (clarifications d)),
             item_id_cl = k, question = q, answer = None, asked_at = Some now,
             answered_at = None, thread_ts = t\<rparr> \<and>
         pre_clarification_status k d1 =
           (if status item = ''needs_clarification'' then pre_clarification_status k d
            else status item))) \<and>
   (schema_ok d \<and> find_item k d = Some item \<and>
    find (\<lambda>x. id_cl x = c \<and> item_id_cl x = k) (clarifications d) = Some cl \<and>
    answer cl = None \<and> status_check (pre_clarification_status k d) \<longrightarrow>
      (\<exists>d2. answer_clarification now k c a d = Inr (a, d2) \<and> schema_ok d2 \<and>
         open_clarifications k d2 =
           filter (\<lambda>x. \<not> (id_cl x = c \<and> item_id_cl x = k)) (open_clarifications k d) \<and>
         count_events ''clarification_answered'' d2 =
           count_events ''clarification_answered'' d + 1 \<and>
         length (backlog_items d2) = length (backlog_items d) \<and>
         (filter (\<lambda>x. \<not> (id_cl x = c \<and> item_id_cl x = k)) (open_clarifications k d) \<noteq> [] \<longrightarrow>
            backlog_items d2 = backlog_items d \<and>
            pre_clarification_status k d2 = pre_clarification_status k d) \<and>
         (filter (\<lambda>x. \<not> (id_cl x = c \<and> item_id_cl x = k)) (open_clarifications k d) = [] \<longrightarrow>
            map_option status (find_item k d2) = Some (pre_clarification_status k d)))) \<and>
   (find_item k d = Some item \<and>
    constraint_error (filter (\<lambda>r. id_bi r \<noteq> k) (backlog_items d)) item = None \<and>
    status item \<noteq> ''needs_clarification'' \<and> open_clarifications k d = [] \<longrightarrow>
      (\<exists>d1 d2. ask now k q t d = Inr d1 \<and>
         map_option status (find_item k d1) = Some ''needs_clarification'' \<and>
         answer_clarification now' k
           (next_rowid (seq_clarifications d) (map id_cl (clarifications d))) a d1 = Inr (a, d2) \<and>
         map_option status (find_item k d2) = Some (status item) \<and>
         length (backlog_items d2) = length (backlog_items d) \<and>
         (\<forall>(b, c) \<in> set (v_needs_clarification d2). id_bi b \<noteq> k))) \<and>
   (find (enters_clarification k) (rev (backlog_events d)) = None \<longrightarrow>
      pre_clarification_status k d = ''open'')"
proof -
  have a: "answer_clarification now k c a d = Inr (x, d1) \<longrightarrow>
      answer_clarification now' k c a' d1 = Inr (x, d1)"
    using answer_clarification_again by blast
  note b = ask_effect[of d k item now q t]
  note e = answer_fresh_effect[of d c k cl item now a]
  have g: "\<exists>d1 d2. ask now k q t d = Inr d1 \<and>
         map_option status (find_item k d1) = Some ''needs_clarification'' \<and>
         answer_clarification now' k
           (next_rowid (seq_clarifications d) (map id_cl (clarifications d))) a d1 = Inr (a, d2) \<and>
         map_option status (find_item k d2) = Some (status item) \<and>
         length (backlog_items d2) = length (backlog_items d) \<and>
         (\<forall>(b, c) \<in> set (v_needs_clarification d2). id_bi b \<noteq> k)"
    if h: "find_item k d = Some item"
      "constraint_error (filter (\<lambda>r. id_bi r \<noteq> k) (backlog_items d)) item = None"
      "status item \<noteq> ''needs_clarification''" "open_clarifications k d = []"
  proof -
    obtain d1 d2 where r: "ask now k q t d = Inr d1"
      "map_option status (find_item k d1) = Some ''needs_clarification''"
      "answer_clarification now' k
           (next_rowid (seq_clarifications d) (map id_cl (clarifications d))) a d1 = Inr (a, d2)"
      "map_option status (find_item k d2) = Some (status item)"
      "length (backlog_items d2) = length (backlog_items d)"
      "open_clarifications k d2 = []"
      using ask_then_answer[OF h, of now q t now' a] by blast
    have "\<forall>(b, c) \<in> set (v_needs_clarification d2). id_bi b \<noteq> k"
      using v_needs_clarification_none_open[OF r(6)] by blast
    with r show ?thesis by blast
  qed
  have i: "find (enters_clarification k) (rev (backlog_events d)) = None \<longrightarrow>
      pre_clarification_status k d = ''open''"
    by (simp add: pre_clarification_status_def)
  show ?thesis
    apply (intro conjI)
    subgoal by (rule a)
    subgoal using b by blast
    subgoal using e by blast
    subgoal using g by blast
    subgoal by (rule i)
    done
qed


theorem answering_a_clarification_is_idempotent_witness:
  "schema_ok ex_db \<and> find_item 1 ex_db = Some ex_item \<and>
   (\<exists>d1 d2 d3 d4.
      ask 2 1 ''Which environment?'' None ex_db = Inr d1 \<and>
      pre_clarification_status 1 d1 = ''open'' \<and>
      ask 3 1 ''Which browser?'' None d1 = Inr d2 \<and>
      map_option status (find_item 1 d2) = Some ''needs_clarification'' \<and>
      schema_ok d2 \<and> status_check (pre_clarification_status 1 d2) \<and>
      map_option answer (find (\<lambda>x. id_cl x = 1 \<and> item_id_cl x = 1) (clarifications d2)) =
        Some None \<and>
      filter (\<lambda>x. \<not> (id_cl x = 1 \<and> item_id_cl x = 1)) (open_clarifications 1 d2) \<noteq> [] \<and>
      answer_clarification 4 1 1 ''production'' d2 = Inr (''production'', d3) \<and>
      backlog_items d3 = backlog_items d2 \<and>
      map_option status (find_item 1 d3) = Some ''needs_clarification'' \<and>
      answer_clarification 5 1 1 ''staging'' d3 = Inr (''production'', d3) \<and>
      answer_clarification 6 1 2 ''Firefox'' d3 = Inr (''Firefox'', d4) \<and>
      map_option status (find_item 1 d4) = Some ''open'' \<and>
      length (backlog_items d4) = 1 \<and>
      count_events ''clarification_answered'' d4 = 2 \<and>
      answer_clarification 7 1 2 ''Chrome'' d4 = Inr (''Firefox'', d4))"
proof -
  have ok: "schema_ok ex_db"
    by (simp add: schema_ok_def checks_ok_def ex_db_def ex_item_def sql_defs)
  have f: "find_item 1 ex_db = Some ex_item" by (rule ex_find)
  have st: "status ex_item = ''open''" by (simp add: ex_item_def default_row_def)
  have "\<exists>d1 d2 d3 d4.
      ask 2 1 ''Which environment?'' None ex_db = Inr d1 \<and>
      ask 3 1 ''Which browser?'' None d1 = Inr d2 \<and>
      map_option status (find_item 1 d2) = Some ''needs_clarification'' \<and>
      schema_ok d2 \<and> status_check (pre_clarification_status 1 d2) \<and>
      map_option answer (find (\<lambda>x. id_cl x = 1 \<and> item_id_cl x = 1) (clarifications d2)) =
        Some None \<and>
      filter (\<lambda>x. \<not> (id_cl x = 1 \<and> item_id_cl x = 1)) (open_clarifications 1 d2) \<noteq> [] \<and>
      answer_clarification 4 1 1 ''production'' d2 = Inr (''production'', d3) \<and>
      map_option status (find_item 1 d3) = Some ''needs_clarification'' \<and>
      answer_clarification 6 1 2 ''Firefox'' d3 = Inr (''Firefox'', d4) \<and>
      map_option status (find_item 1 d4) = Some ''open'' \<and>
      length (backlog_items d4) = 1 \<and>
      count_events ''clarification_answered'' d4 = 2"
    by (simp add: engine_defs sql_defs ex_db_def ex_item_def count_events_def schema_ok_def
        checks_ok_def)
  then obtain d1 d2 d3 d4 where r:
      "ask 2 1 ''Which environment?'' None ex_db = Inr d1"
      "ask 3 1 ''Which browser?'' None d1 = Inr d2"
      "map_option status (find_item 1 d2) = Some ''needs_clarification''"
      "schema_ok d2" "status_check (pre_clarification_status 1 d2)"
      "map_option answer (find (\<lambda>x. id_cl x = 1 \<and> item_id_cl x = 1) (clarifications d2)) =
        Some None"
      "filter (\<lambda>x. \<not> (id_cl x = 1 \<and> item_id_cl x = 1)) (open_clarifications 1 d2) \<noteq> []"
      "answer_clarification 4 1 1 ''production'' d2 = Inr (''production'', d3)"
      "map_option status (find_item 1 d3) = Some ''needs_clarification''"
      "answer_clarification 6 1 2 ''Firefox'' d3 = Inr (''Firefox'', d4)"
      "map_option status (find_item 1 d4) = Some ''open''"
      "length (backlog_items d4) = 1"
      "count_events ''clarification_answered'' d4 = 2"
    by (elim exE conjE)
  note th = answering_a_clarification_is_idempotent
  have pre1: "pre_clarification_status 1 d1 = ''open''"
    using conjunct1[OF conjunct2[OF th[where k = 1 and d = ex_db and item = ex_item
        and now = 2 and q = "''Which environment?''" and t = None]]] ok f r(1) st
    by auto
  obtain item2 where i2: "find_item 1 d2 = Some item2" using r(3) by auto
  obtain cl where cl: "find (\<lambda>x. id_cl x = 1 \<and> item_id_cl x = 1) (clarifications d2) = Some cl"
      "answer cl = None"
    using r(6) by auto
  have same: "backlog_items d3 = backlog_items d2"
    using conjunct1[OF conjunct2[OF conjunct2[OF th[where k = 1 and d = d2 and item = item2
        and c = 1 and cl = cl and now = 4 and a = "''production''"]]]]
      r(4,5,7,8) i2 cl
    by auto
  have again1: "answer_clarification 5 1 1 ''staging'' d3 = Inr (''production'', d3)"
    using conjunct1[OF th[where now = 4 and k = 1 and c = 1 and a = "''production''"
        and d = d2 and x = "''production''" and ?d1.0 = d3 and now' = 5
        and a' = "''staging''"]] r(8)
    by simp
  have again2: "answer_clarification 7 1 2 ''Chrome'' d4 = Inr (''Firefox'', d4)"
    using conjunct1[OF th[where now = 6 and k = 1 and c = 2 and a = "''Firefox''"
        and d = d3 and x = "''Firefox''" and ?d1.0 = d4 and now' = 7
        and a' = "''Chrome''"]] r(10)
    by simp
  have "\<exists>d1 d2 d3 d4.
      ask 2 1 ''Which environment?'' None ex_db = Inr d1 \<and>
      pre_clarification_status 1 d1 = ''open'' \<and>
      ask 3 1 ''Which browser?'' None d1 = Inr d2 \<and>
      map_option status (find_item 1 d2) = Some ''needs_clarification'' \<and>
      schema_ok d2 \<and> status_check (pre_clarification_status 1 d2) \<and>
      map_option answer (find (\<lambda>x. id_cl x = 1 \<and> item_id_cl x = 1) (clarifications d2)) =
        Some None \<and>
      filter (\<lambda>x. \<not> (id_cl x = 1 \<and> item_id_cl x = 1)) (open_clarifications 1 d2) \<noteq> [] \<and>
      answer_clarification 4 1 1 ''production'' d2 = Inr (''production'', d3) \<and>
      backlog_items d3 = backlog_items d2 \<and>
      map_option status (find_item 1 d3) = Some ''needs_clarification'' \<and>
      answer_clarification 5 1 1 ''staging'' d3 = Inr (''production'', d3) \<and>
      answer_clarification 6 1 2 ''Firefox'' d3 = Inr (''Firefox'', d4) \<and>
      map_option status (find_item 1 d4) = Some ''open'' \<and>
      length (backlog_items d4) = 1 \<and>
      count_events ''clarification_answered'' d4 = 2 \<and>
      answer_clarification 7 1 2 ''Chrome'' d4 = Inr (''Firefox'', d4)"
    using r pre1 same again1 again2
    by (intro exI[of _ d1] exI[of _ d2] exI[of _ d3] exI[of _ d4] conjI)
  with ok f show ?thesis by (intro conjI)
qed


subsection \<open>Changes of status follow the transition table\<close>

lemma status_patch_sets:
  "p_status p = Some s \<Longrightarrow> status (fold assign (patch_sets p) r) = s"
  by (simp add: patch_sets_def)

lemma patch_sets_changeStatus:
  "patch_sets (no_patch\<lparr>p_status := Some s\<rparr>) = [Set_status s]"
  by (simp add: patch_sets_def field_sets_def no_patch_def)

lemma update_item_illegal:
  assumes "find_item k d = Some old" and "p_status p = Some s"
    and "s \<noteq> status old" and "\<not> spec_item_transition (status old) s"
  shows "update_item now k p d = Inl InvalidTransition"
  using assms by (simp add: update_item_def)

lemma update_item_Inr_status:
  assumes f: "find_item k d = Some old" and p: "p_status p = Some s"
    and u: "update_item now k p d = Inr d'"
  shows "(s = status old \<or> spec_item_transition (status old) s) \<and>
         map_option status (find_item k d') = Some s"
proof -
  have legal: "s = status old \<or> spec_item_transition (status old) s"
    using assms by (auto simp: update_item_def split: if_splits)
  obtain d1 where d1: "update_backlog_item now k (patch_sets p) d = Inr d1"
    and d': "find_item k d' = find_item k d1"
    using f u by (auto simp: update_item_def split: if_splits sum.splits)
  have "id_bi (fold assign (patch_sets p) old) = k"
    using id_bi_fold_assign[of "patch_sets p" old] patch_sets_no_keys[of p]
      find_item_in_set[OF f] by simp
  then have "find_item k d1 = Some (stored_row now (patch_sets p) old)"
    using update_backlog_item_find[OF f d1] by simp
  then show ?thesis using legal d' status_patch_sets[OF p] by simp
qed

lemma changeStatus_legal_succeeds:
  assumes ok: "schema_ok d" and f: "find_item k d = Some old"
    and l: "spec_item_transition (status old) s"
  shows "\<exists>d'. changeStatus now k s d = Inr d'"
proof -
  obtain d1 where "update_backlog_item now k [Set_status s] d = Inr d1"
    using update_status_succeeds[OF f schema_ok_row[OF ok f]
        spec_item_transition_status_check[OF l]] by blast
  then show ?thesis
    using f l by (simp add: changeStatus_def update_item_def patch_sets_changeStatus)
qed

text \<open>
  Claim C5. \<open>changeStatus\<close>, and \<open>update\<close> with a patch that names a status: on an unknown
  id both fail with \<open>NotFound\<close>; a change to another status that is not in the transition
  table fails with \<open>InvalidTransition\<close>, and a failure returns no store, so the item and
  everything else stay as they were; a request that succeeds asked for the status the
  item has or for a change in the table, and the item then has the status asked for;
  in a store that meets the constraints every change in the table succeeds. In the
  table nothing leaves \<open>done\<close>, \<open>cancelled\<close> is left only for \<open>open\<close>, and \<open>cancelled\<close>
  is reached from each of the four other states.
\<close>

theorem changeStatus_enforces_transition_table:
  "(find_item k d = None \<longrightarrow>
      changeStatus now k s d = Inl NotFound \<and> update_item now k p d = Inl NotFound) \<and>
   (find_item k d = Some old \<and> s \<noteq> status old \<and> \<not> spec_item_transition (status old) s \<longrightarrow>
      changeStatus now k s d = Inl InvalidTransition \<and>
      (p_status p = Some s \<longrightarrow> update_item now k p d = Inl InvalidTransition)) \<and>
   (find_item k d = Some old \<and> changeStatus now k s d = Inr d' \<longrightarrow>
      (s = status old \<or> spec_item_transition (status old) s) \<and>
      map_option status (find_item k d') = Some s) \<and>
   (find_item k d = Some old \<and> p_status p = Some s \<and> update_item now k p d = Inr d' \<longrightarrow>
      (s = status old \<or> spec_item_transition (status old) s) \<and>
      map_option status (find_item k d') = Some s) \<and>
   (schema_ok d \<and> find_item k d = Some old \<and> spec_item_transition (status old) s \<longrightarrow>
      (\<exists>d1. changeStatus now k s d = Inr d1 \<and> map_option status (find_item k d1) = Some s)) \<and>
   \<not> spec_item_transition ''done'' s \<and>
   (spec_item_transition ''cancelled'' s \<longleftrightarrow> s = ''open'') \<and>
   (s \<in> set [''open'', ''needs_clarification'', ''in_progress'', ''blocked''] \<longrightarrow>
      spec_item_transition s ''cancelled'')"
proof -
  have ps: "p_status (no_patch\<lparr>p_status := Some s\<rparr>) = Some s" by simp
  have a: "find_item k d = None \<longrightarrow>
      changeStatus now k s d = Inl NotFound \<and> update_item now k p d = Inl NotFound"
    by (simp add: changeStatus_def update_item_def)
  have b: "find_item k d = Some old \<and> s \<noteq> status old \<and> \<not> spec_item_transition (status old) s \<longrightarrow>
      changeStatus now k s d = Inl InvalidTransition \<and>
      (p_status p = Some s \<longrightarrow> update_item now k p d = Inl InvalidTransition)"
    using update_item_illegal[of k d old _ s now] ps
    unfolding changeStatus_def by blast
  have c: "find_item k d = Some old \<and> changeStatus now k s d = Inr d' \<longrightarrow>
      (s = status old \<or> spec_item_transition (status old) s) \<and>
      map_option status (find_item k d') = Some s"
    using update_item_Inr_status[of k d old _ s now d'] ps
    unfolding changeStatus_def by blast
  have e: "find_item k d = Some old \<and> p_status p = Some s \<and> update_item now k p d = Inr d' \<longrightarrow>
      (s = status old \<or> spec_item_transition (status old) s) \<and>
      map_option status (find_item k d') = Some s"
    using update_item_Inr_status[of k d old p s now d'] by blast
  have g: "\<exists>d1. changeStatus now k s d = Inr d1 \<and> map_option status (find_item k d1) = Some s"
    if h: "schema_ok d" "find_item k d = Some old" "spec_item_transition (status old) s"
  proof -
    obtain d1 where d1: "changeStatus now k s d = Inr d1"
      using changeStatus_legal_succeeds[OF h] by blast
    then have "map_option status (find_item k d1) = Some s"
      using update_item_Inr_status[OF h(2) ps, of now d1] by (simp add: changeStatus_def)
    with d1 show ?thesis by blast
  qed
  have t: "\<not> spec_item_transition ''done'' s \<and>
   (spec_item_transition ''cancelled'' s \<longleftrightarrow> s = ''open'') \<and>
   (s \<in> set [''open'', ''needs_clarification'', ''in_progress'', ''blocked''] \<longrightarrow>
      spec_item_transition s ''cancelled'')"
    by (auto simp: spec_item_transition_def)
  show ?thesis using a b c e g t by blast
qed


theorem changeStatus_enforces_transition_table_witness:
  "find_item 1 ex_db = Some ex_item \<and> status ex_item = ''open'' \<and> schema_ok ex_db \<and>
   \<not> spec_item_transition ''open'' ''done'' \<and> spec_item_transition ''open'' ''cancelled'' \<and>
   changeStatus 10 1 ''done'' ex_db = Inl InvalidTransition \<and>
   (\<exists>d1. changeStatus 10 1 ''cancelled'' ex_db = Inr d1 \<and>
      map_option status (find_item 1 d1) = Some ''cancelled'') \<and>
   find_item 99 ex_db = None \<and> changeStatus 10 99 ''done'' ex_db = Inl NotFound \<and>
   (\<exists>d r. and_then (and_then (and_then (changeStatus 2 1 ''needs_clarification'' ex_db)
            (changeStatus 3 1 ''in_progress'')) (changeStatus 4 1 ''blocked''))
            (changeStatus 5 1 ''done'') = Inr d \<and>
      find_item 1 d = Some r \<and> status r = ''done'' \<and>
      changeStatus 6 1 ''in_progress'' d = Inl InvalidTransition)"
proof -
  have f: "find_item 1 ex_db = Some ex_item" by (rule ex_find)
  have st: "status ex_item = ''open''" by (simp add: ex_item_def default_row_def)
  have ok: "schema_ok ex_db"
    by (simp add: schema_ok_def checks_ok_def ex_db_def ex_item_def sql_defs)
  have t1: "\<not> spec_item_transition ''open'' ''done''"
    and t2: "spec_item_transition ''open'' ''cancelled''"
    by (simp_all add: spec_item_transition_def)
  note th = changeStatus_enforces_transition_table
  have a: "changeStatus 10 1 ''done'' ex_db = Inl InvalidTransition"
    using th[where k = 1 and d = ex_db and old = ex_item and s = "''done''" and now = 10] f st t1
    by simp
  have b: "\<exists>d1. changeStatus 10 1 ''cancelled'' ex_db = Inr d1 \<and>
      map_option status (find_item 1 d1) = Some ''cancelled''"
    using th[where k = 1 and d = ex_db and old = ex_item and s = "''cancelled''" and now = 10]
      f st t2 ok
    by simp
  have n: "find_item 99 ex_db = None"
    by (simp add: find_item_def ex_db_def ex_item_def)
  have c: "changeStatus 10 99 ''done'' ex_db = Inl NotFound"
    using th[where k = 99 and d = ex_db and s = "''done''" and now = 10] n by simp
  have "\<exists>d. and_then (and_then (and_then (changeStatus 2 1 ''needs_clarification'' ex_db)
            (changeStatus 3 1 ''in_progress'')) (changeStatus 4 1 ''blocked''))
            (changeStatus 5 1 ''done'') = Inr d \<and>
          map_option status (find_item 1 d) = Some ''done''"
    by (simp add: and_then_def engine_defs sql_defs ex_db_def ex_item_def)
  then obtain d r where d: "and_then (and_then (and_then
            (changeStatus 2 1 ''needs_clarification'' ex_db)
            (changeStatus 3 1 ''in_progress'')) (changeStatus 4 1 ''blocked''))
            (changeStatus 5 1 ''done'') = Inr d"
      "find_item 1 d = Some r" "status r = ''done''"
    by auto
  have "changeStatus 6 1 ''in_progress'' d = Inl InvalidTransition"
    using th[where k = 1 and d = d and old = r and s = "''in_progress''" and now = 6] d(2,3)
    by simp
  then show ?thesis using f st ok t1 t2 a b n c d by blast
qed


section \<open>Properties of the Broadcast Hub\<close>

lemma capacity_hub_step [simp]: "capacity (hub_step ev h) = capacity h"
  by (cases ev)
    (auto simp: subscribe_def publish_def deliver_def drop_observer_def Let_def
      split: option.splits list.splits)

lemma bounded_drop_observer: "bounded h \<Longrightarrow> bounded (drop_observer ob h)"
  by (auto simp: bounded_def drop_observer_def list_all_iff)

lemma bounded_subscribe: "bounded h \<Longrightarrow> bounded (subscribe ob full h)"
  by (auto simp: bounded_def subscribe_def drop_observer_def Let_def list_all_iff)

lemma bounded_publish: "bounded (publish n h)"
  by (auto simp: bounded_def publish_def list_all_iff)

lemma bounded_tl:
  "list_all (\<lambda>(ob, q). length q \<le> c) xs \<Longrightarrow>
   list_all (\<lambda>(ob, q). length q \<le> c)
     (map (\<lambda>(ob', q'). if ob' = ob then (ob', tl q') else (ob', q')) xs)"
  by (induction xs) (auto split: if_splits)

lemma bounded_deliver: "bounded h \<Longrightarrow> bounded (snd (deliver ob h))"
  using bounded_tl[of "capacity h" "observers h" ob]
  by (simp add: bounded_def deliver_def split: option.splits list.splits)

lemma bounded_hub_step: "bounded h \<Longrightarrow> bounded (hub_step ev h)"
  by (cases ev) (simp_all add: bounded_subscribe bounded_publish bounded_deliver
      bounded_drop_observer)

lemma distinct_drop_observer:
  "distinct (map fst (observers h)) \<Longrightarrow> distinct (map fst (observers (drop_observer ob h)))"
  by (simp add: drop_observer_def distinct_map_filter)

lemma fst_drop_observer: "ob \<notin> fst ` set (observers (drop_observer ob h))"
  by (auto simp: drop_observer_def)

lemma distinct_hub_step:
  assumes "distinct (map fst (observers h))"
  shows "distinct (map fst (observers (hub_step ev h)))"
proof (cases ev)
  case (Subscribe ob full)
  then show ?thesis
    using distinct_drop_observer[OF assms, of ob] fst_drop_observer[of ob h]
    by (simp add: subscribe_def Let_def)
next
  case (Publish n)
  have eq: "map (fst \<circ> (\<lambda>(ob, q). (ob, q @ [Change n]))) xs = map fst xs" for xs
    by (induction xs) auto
  show ?thesis
    using Publish distinct_map_filter[OF assms, of "\<lambda>(ob, q). length q < capacity h"]
    by (simp add: publish_def eq)
next
  case (Deliver ob)
  have eq: "map (fst \<circ> (\<lambda>(ob', q'). if ob' = ob then (ob', tl q') else (ob', q'))) xs =
      map fst xs" for xs :: "(string \<times> hub_message list) list"
    by (induction xs) auto
  show ?thesis using Deliver assms
    by (simp add: deliver_def eq split: option.splits list.splits)
next
  case (Disconnect ob)
  then show ?thesis using distinct_drop_observer[OF assms] by simp
qed

lemma hub_run_invariant:
  assumes "bounded h" and "distinct (map fst (observers h))"
  shows "bounded (hub_run evs h) \<and> distinct (map fst (observers (hub_run evs h))) \<and>
         capacity (hub_run evs h) = capacity h"
  using assms unfolding hub_run_def
proof (induction evs arbitrary: h)
  case Nil
  then show ?case by simp
next
  case (Cons ev evs)
  from Cons.IH[OF bounded_hub_step[OF Cons.prems(1)] distinct_hub_step[OF Cons.prems(2)]]
  show ?case by simp
qed


lemma bounded_new_hub: "bounded (new_hub cap) \<and> distinct (map fst (observers (new_hub cap)))"
  by (simp add: bounded_def new_hub_def)

lemma map_of_publish:
  "map_of (observers (publish n h)) ob =
     (case map_of (filter (\<lambda>(ob, q). length q < capacity h) (observers h)) ob of
        None \<Rightarrow> None | Some q \<Rightarrow> Some (q @ [Change n]))"
proof -
  have "map_of (map (\<lambda>(ob, q). (ob, q @ [Change n])) xs) ob =
      (case map_of xs ob of None \<Rightarrow> None | Some q \<Rightarrow> Some (q @ [Change n]))"
    for xs :: "(string \<times> hub_message list) list"
    by (induction xs) auto
  then show ?thesis by (simp add: publish_def)
qed

lemma map_of_filter_distinct:
  assumes "distinct (map fst xs)" and "(k, v) \<in> set xs"
  shows "map_of (filter P xs) k = (if P (k, v) then Some v else None)"
  using assms
proof (induction xs)
  case Nil
  then show ?case by simp
next
  case (Cons x xs)
  obtain k' v' where x: "x = (k', v')" by (cases x)
  show ?case
  proof (cases "k' = k")
    case True
    with Cons.prems x have v: "v' = v" by (auto simp: image_iff)
    from Cons.prems x True have "k \<notin> fst ` set (filter P xs)" by auto
    hence "map_of (filter P xs) k = None" by (simp add: map_of_eq_None_iff)
    with x True v show ?thesis by simp
  next
    case False
    with Cons x show ?thesis by auto
  qed
qed

lemma publish_drops_full:
  assumes "distinct (map fst (observers h))" and "(ob, q) \<in> set (observers h)"
    and "capacity h \<le> length q"
  shows "map_of (observers (publish n h)) ob = None"
  using map_of_filter_distinct[OF assms(1,2), of "\<lambda>(ob, q). length q < capacity h"] assms(3)
  by (simp add: map_of_publish)

lemma publish_appends:
  assumes "distinct (map fst (observers h))" and "(ob, q) \<in> set (observers h)"
    and "length q < capacity h"
  shows "map_of (observers (publish n h)) ob = Some (q @ [Change n])"
  using map_of_filter_distinct[OF assms(1,2), of "\<lambda>(ob, q). length q < capacity h"] assms(3)
  by (simp add: map_of_publish)

lemma map_of_drop_observer: "map_of (observers (drop_observer ob h)) ob = None"
  using fst_drop_observer[of ob h] by (simp add: map_of_eq_None_iff)

lemma subscribe_gets_snapshot:
  "0 < capacity h \<Longrightarrow> map_of (observers (subscribe ob full h)) ob = Some [Full_snapshot full]"
  using map_of_drop_observer[of ob h] by (simp add: subscribe_def Let_def map_add_def)

lemma write_item_outcome: "map_sum id fst (write_item x (d, h)) = engine_step x d"
  by (simp add: write_item_def split: sum.splits)

lemma write_session_outcome:
  "map_sum id fst (write_session now sid opn (st, h)) = apply_op now sid opn st"
  by (simp add: write_session_def split: sum.splits)

text \<open>
  Claim C9. In every state that the hub reaches from its start, by any sequence of
  subscriptions, notifications, deliveries and disconnections, no observer's queue holds
  more than \<open>capacity\<close> undelivered messages, and no observer is connected twice; every
  step keeps the bound. A notification drops the observer whose queue is full and is
  appended to the queue of every other one. An observer that was dropped is no longer
  connected, and one that subscribes again starts from the full snapshot. A write's
  outcome, its error or its new store, is that of the operation alone, whatever the
  state of the hub and of its observers: this holds for the operations on items and for
  the transitions of sessions.
\<close>

theorem fan_out_queues_are_bounded:
  "bounded (hub_run evs (new_hub cap)) \<and>
   (\<forall>(ob, q) \<in> set (observers (hub_run evs (new_hub cap))). length q \<le> cap) \<and>
   distinct (map fst (observers (hub_run evs (new_hub cap)))) \<and>
   (bounded h \<longrightarrow> bounded (hub_step ev h)) \<and>
   (distinct (map fst (observers h)) \<and> (ob, q) \<in> set (observers h) \<and> capacity h \<le> length q \<longrightarrow>
      map_of (observers (publish n h)) ob = None) \<and>
   (distinct (map fst (observers h)) \<and> (ob, q) \<in> set (observers h) \<and> length q < capacity h \<longrightarrow>
      map_of (observers (publish n h)) ob = Some (q @ [Change n])) \<and>
   map_of (observers (drop_observer ob h)) ob = None \<and>
   (0 < capacity h \<longrightarrow>
      map_of (observers (subscribe ob full h)) ob = Some [Full_snapshot full]) \<and>
   map_sum id fst (write_item x (d, h)) = engine_step x d \<and>
   map_sum id fst (write_session now sid opn (st, h)) = apply_op now sid opn st"
proof -
  note inv = hub_run_invariant[OF conjunct1[OF bounded_new_hub] conjunct2[OF bounded_new_hub],
      of evs cap]
  have cap: "capacity (hub_run evs (new_hub cap)) = cap"
    using inv by (simp add: new_hub_def)
  have b: "bounded (hub_run evs (new_hub cap))" using inv by simp
  have q: "\<forall>(ob, q) \<in> set (observers (hub_run evs (new_hub cap))). length q \<le> cap"
    using b cap by (simp add: bounded_def list_all_iff)
  show ?thesis
    using b q inv bounded_hub_step[of h ev] publish_drops_full[of h ob q n]
      publish_appends[of h ob q n] map_of_drop_observer[of ob h]
      subscribe_gets_snapshot[of h ob full] write_item_outcome[of x d h]
      write_session_outcome[of now sid opn st h]
    by blast
qed

theorem fan_out_queues_are_bounded_witness:
  "observers (hub_run ex_hub_events (new_hub 2)) =
     [(''fast'', [Change (ex_note ''created'')]),
      (''slow'', [Full_snapshot [], Change (ex_note ''created'')])] \<and>
   bounded (hub_run ex_hub_events (new_hub 2)) \<and>
   map_of (observers (publish (ex_note ''priority_changed'') (hub_run ex_hub_events (new_hub 2))))
     ''slow'' = None \<and>
   map_of (observers (publish (ex_note ''priority_changed'') (hub_run ex_hub_events (new_hub 2))))
     ''fast'' = Some [Change (ex_note ''created''), Change (ex_note ''priority_changed'')] \<and>
   map_of (observers (subscribe ''slow'' [Item_snapshot ex_item]
       (publish (ex_note ''priority_changed'') (hub_run ex_hub_events (new_hub 2)))))
     ''slow'' = Some [Full_snapshot [Item_snapshot ex_item]] \<and>
   write_item (1, ChangeStatus 1 ''done'') (ex_db, hub_run ex_hub_events (new_hub 2)) =
     Inl InvalidTransition \<and>
   (\<exists>d'. write_item (1, ChangeStatus 1 ''cancelled'') (ex_db, hub_run ex_hub_events (new_hub 2)) =
      Inr (d', publish (item_notification (ChangeStatus 1 ''cancelled'') d')
                 (hub_run ex_hub_events (new_hub 2))) \<and>
      engine_step (1, ChangeStatus 1 ''cancelled'') ex_db = Inr d')"
proof -
  let ?h = "hub_run ex_hub_events (new_hub 2)"
  let ?n = "ex_note ''priority_changed''"
  have obs: "observers ?h =
     [(''fast'', [Change (ex_note ''created'')]),
      (''slow'', [Full_snapshot [], Change (ex_note ''created'')])]"
    by (simp add: hub_run_def ex_hub_events_def new_hub_def subscribe_def publish_def
        deliver_def drop_observer_def Let_def)
  have cap: "capacity ?h = 2"
    by (simp add: hub_run_def ex_hub_events_def new_hub_def subscribe_def publish_def
        deliver_def drop_observer_def Let_def)
  have cap': "capacity (publish ?n ?h) = 2"
    using cap by (simp add: publish_def)
  note slow = fan_out_queues_are_bounded[of ex_hub_events 2 ?h "Publish ?n" "''slow''"
      "[Full_snapshot [], Change (ex_note ''created'')]" ?n
      "[Item_snapshot ex_item]" "(1, ChangeStatus 1 ''done'')" ex_db 1 "''s''" Start empty_store]
  note fast = fan_out_queues_are_bounded[of ex_hub_events 2 ?h "Publish ?n" "''fast''"
      "[Change (ex_note ''created'')]" ?n
      "[Item_snapshot ex_item]" "(1, ChangeStatus 1 ''cancelled'')" ex_db 1 "''s''" Start
      empty_store]
  note again = fan_out_queues_are_bounded[of ex_hub_events 2 "publish ?n ?h" "Publish ?n" "''slow''"
      "[]" ?n "[Item_snapshot ex_item]" "(1, ChangeStatus 1 ''done'')" ex_db 1 "''s''" Start
      empty_store]
  have e1: "engine_step (1, ChangeStatus 1 ''done'') ex_db = Inl InvalidTransition"
    by (simp add: engine_defs sql_defs ex_db_def ex_item_def)
  have e2: "\<exists>d'. engine_step (1, ChangeStatus 1 ''cancelled'') ex_db = Inr d'"
    by (simp add: engine_defs sql_defs ex_db_def ex_item_def)
  have w1: "write_item (1, ChangeStatus 1 ''done'') (ex_db, ?h) = Inl InvalidTransition"
    using slow e1 by (cases "write_item (1, ChangeStatus 1 ''done'') (ex_db, ?h)") auto
  from e2 obtain d' where d': "engine_step (1, ChangeStatus 1 ''cancelled'') ex_db = Inr d'" ..
  have w2: "write_item (1, ChangeStatus 1 ''cancelled'') (ex_db, ?h) =
      Inr (d', publish (item_notification (ChangeStatus 1 ''cancelled'') d') ?h)"
    using d' by (simp add: write_item_def)
  show ?thesis
    using slow fast again obs cap cap' w1 w2 d' by simp
qed

end
